theory Spec2Isabelle
  imports Main "HOL-Library.Word" "HOL-Library.Monad_Syntax"
begin

section \<open>Fibonacci heap with 64-bit keys: the memory model\<close>

text \<open>
  The library of \<^verbatim>\<open>FibonacciHeap_uint64-keys.c\<close> works on heap-allocated structs linked by
  pointers. A pointer is a \<open>nat option\<close>: \<open>None\<close> is \<^verbatim>\<open>NULL\<close>, \<open>Some a\<close> the address \<open>a\<close>.
  The integers \<^verbatim>\<open>uint64_t\<close> and \<^verbatim>\<open>ulong\<close> (LP64) are \<open>64 word\<close>, \<^verbatim>\<open>unsigned char\<close> is \<open>8 word\<close>.

  Every function that dereferences a pointer returns an \<open>option\<close>: \<open>None\<close> means that the
  C execution has no result (it dereferences \<^verbatim>\<open>NULL\<close> or a freed struct, indexes the forest
  out of range, or never returns from a loop). \<^verbatim>\<open>calloc\<close> is taken to succeed: the branches
  after a failed allocation are not part of the model.
\<close>

record FibTreeNode =
  key :: "64 word"
  elem :: nat
  father :: "nat option"
  firstSon :: "nat option"
  nextBro :: "nat option"
  prevBro :: "nat option"
  posInForest :: "nat option"
  sonsCnt :: "64 word"
  grief :: "8 word"

datatype FibTree = FibTree (root: nat)

text \<open>
  The struct \<^verbatim>\<open>FibHeap\<close> together with the memory it points into. The array \<^verbatim>\<open>_forest\<close> and
  its length \<^verbatim>\<open>_maxTreeOrd\<close> are the list \<open>forest\<close>; a bucket (a \<^verbatim>\<open>DLList\<close>) is the list
  of its \<^verbatim>\<open>Record\<close> handles from first to last. \<open>nodes\<close> holds the allocated \<^verbatim>\<open>FibTreeNode\<close>s,
  \<open>recs\<close> the \<^verbatim>\<open>recData\<close> of every allocated \<^verbatim>\<open>Record\<close> (the \<^verbatim>\<open>FibTree\<close> it points to, which
  is written once and never shared). \<open>nextNode\<close> and \<open>nextRec\<close> are the addresses the next
  allocations return.
\<close>

record FibHeap =
  forest :: "nat list list"
  heap_min :: "nat option"
  nodesCount :: "64 word"
  nodes :: "nat \<rightharpoonup> FibTreeNode"
  recs :: "nat \<rightharpoonup> FibTree"
  nextNode :: nat
  nextRec :: nat

definition UINT64_MAX :: "64 word" where
  "UINT64_MAX = - 1"

definition ULONG_MAX :: "64 word" where
  "ULONG_MAX = - 1"

subsection \<open>The doubly linked list collaborator\<close>

text \<open>
  Modelled from the spec: the list library \<^verbatim>\<open>DoubleLinkedList/doubleLinkedList.h\<close> is not
  part of the sources. The spec requires of it \<open>create\<close>, \<open>isEmpty\<close>, \<open>count\<close>,
  \<open>appendLast(payload, list) -> handle\<close>, \<open>removeFirst\<close>, \<open>removeLast\<close> and
  \<open>removeByHandle(handle, list)\<close>; the names below are the ones the heap calls.
\<close>

definition createDLList :: "nat list" where
  "createDLList = []"

definition isListEmpty :: "nat list \<Rightarrow> bool" where
  "isListEmpty l = (l = [])"

definition recsCount :: "nat list \<Rightarrow> nat" where
  "recsCount l = length l"

text \<open>Modelled from the spec: \<^verbatim>\<open>forest[i]\<close>, undefined outside the array.\<close>

definition bucket :: "FibHeap \<Rightarrow> nat \<Rightarrow> nat list option" where
  "bucket h i = (if i < length (forest h) then Some (forest h ! i) else None)"

text \<open>Modelled from the spec: \<open>appendLast\<close> of an existing record to bucket \<open>i\<close>.\<close>

definition addAsLastRecord :: "nat \<Rightarrow> nat \<Rightarrow> FibHeap \<Rightarrow> FibHeap option" where
  "addAsLastRecord r i h =
     (case bucket h i of None \<Rightarrow> None
      | Some l \<Rightarrow> Some (h\<lparr>forest := (forest h)[i := l @ [r]]\<rparr>))"

text \<open>Modelled from the spec: \<open>appendLast\<close> allocates a record for the payload and returns
  its handle.\<close>

definition addAsLast :: "FibTree \<Rightarrow> nat \<Rightarrow> FibHeap \<Rightarrow> (nat \<times> FibHeap) option" where
  "addAsLast t i h =
     (let r = nextRec h in
      case addAsLastRecord r i (h\<lparr>recs := (recs h)(r \<mapsto> t), nextRec := Suc r\<rparr>) of
        None \<Rightarrow> None
      | Some h' \<Rightarrow> Some (r, h'))"

text \<open>Modelled from the spec: \<open>removeByHandle\<close>; the handle must be in the list.\<close>

definition popRecord :: "nat \<Rightarrow> nat \<Rightarrow> FibHeap \<Rightarrow> (nat \<times> FibHeap) option" where
  "popRecord r i h =
     (case bucket h i of None \<Rightarrow> None
      | Some l \<Rightarrow>
          if r \<in> set l then Some (r, h\<lparr>forest := (forest h)[i := remove1 r l]\<rparr>) else None)"

text \<open>Modelled from the spec: \<open>removeFirst\<close> and \<open>removeLast\<close>, returning the record.\<close>

definition popFirstRecord :: "nat \<Rightarrow> FibHeap \<Rightarrow> (nat \<times> FibHeap) option" where
  "popFirstRecord i h =
     (case bucket h i of None \<Rightarrow> None
      | Some l \<Rightarrow>
          if l = [] then None else Some (hd l, h\<lparr>forest := (forest h)[i := tl l]\<rparr>))"

definition popLastRecord :: "nat \<Rightarrow> FibHeap \<Rightarrow> (nat \<times> FibHeap) option" where
  "popLastRecord i h =
     (case bucket h i of None \<Rightarrow> None
      | Some l \<Rightarrow>
          if l = [] then None else Some (last l, h\<lparr>forest := (forest h)[i := butlast l]\<rparr>))"

text \<open>Modelled from the spec: releasing a record; its handle dangles afterwards.\<close>

definition eraseRecord :: "nat \<Rightarrow> FibHeap \<Rightarrow> FibHeap" where
  "eraseRecord r h = h\<lparr>recs := (recs h)(r := None)\<rparr>"

subsection \<open>Reading and writing nodes\<close>

text \<open>\<^verbatim>\<open>p->field = v\<close>: the node at \<open>a\<close> must be allocated.\<close>

definition updNode :: "nat \<Rightarrow> (FibTreeNode \<Rightarrow> FibTreeNode) \<Rightarrow> FibHeap \<Rightarrow> FibHeap option" where
  "updNode a f h =
     (case nodes h a of None \<Rightarrow> None
      | Some n \<Rightarrow> Some (h\<lparr>nodes := (nodes h)(a \<mapsto> f n)\<rparr>))"

section \<open>Library functions\<close>

definition createFibHeap :: "64 word \<Rightarrow> FibHeap option" where
  "createFibHeap initMaxTreeOrd =
     (if initMaxTreeOrd = 0 then None
      else Some \<lparr>forest = replicate (unat initMaxTreeOrd) createDLList,
                 heap_min = None, nodesCount = 0,
                 nodes = Map.empty, recs = Map.empty, nextNode = 0, nextRec = 0\<rparr>)"

definition isHeapEmpty :: "FibHeap option \<Rightarrow> int" where
  "isHeapEmpty heap =
     (case heap of None \<Rightarrow> - 1
      | Some h \<Rightarrow> if list_all isListEmpty (forest h) then 1 else 0)"

definition fhFindMin :: "FibHeap option \<Rightarrow> nat option" where
  "fhFindMin heap =
     (case heap of None \<Rightarrow> Some 0
      | Some h \<Rightarrow>
         (case heap_min h of None \<Rightarrow> Some 0
          | Some m \<Rightarrow> map_option elem (nodes h m)))"

subsection \<open>Updating the minimum\<close>

text \<open>The slow mode of \<^verbatim>\<open>_updateMin\<close>: one bucket, then all buckets in order.\<close>

fun scanList :: "FibHeap \<Rightarrow> nat list \<Rightarrow> nat option \<times> 64 word \<Rightarrow> (nat option \<times> 64 word) option" where
  "scanList h [] acc = Some acc"
| "scanList h (r # rs) (newMin, newMinKey) =
     (case recs h r of None \<Rightarrow> None
      | Some t \<Rightarrow>
         (case nodes h (root t) of None \<Rightarrow> None
          | Some n \<Rightarrow>
              if key n < newMinKey then scanList h rs (Some (root t), key n)
              else scanList h rs (newMin, newMinKey)))"

fun scanForest :: "FibHeap \<Rightarrow> nat list list \<Rightarrow> nat option \<times> 64 word \<Rightarrow> (nat option \<times> 64 word) option" where
  "scanForest h [] acc = Some acc"
| "scanForest h (l # ls) acc =
     (case scanList h l acc of None \<Rightarrow> None
      | Some acc' \<Rightarrow> scanForest h ls acc')"

definition updateMin :: "FibHeap \<Rightarrow> nat option \<Rightarrow> FibHeap option" where
  "updateMin h newNode =
     (if isHeapEmpty (Some h) \<noteq> 0 then Some (h\<lparr>heap_min := None\<rparr>)
      else case newNode of
        None \<Rightarrow>
          (case scanForest h (forest h) (None, UINT64_MAX) of None \<Rightarrow> None
           | Some (newMin, newMinKey) \<Rightarrow> Some (h\<lparr>heap_min := newMin\<rparr>))
      | Some n \<Rightarrow>
          (case heap_min h of None \<Rightarrow> Some (h\<lparr>heap_min := Some n\<rparr>)
           | Some m \<Rightarrow>
              (case nodes h n of None \<Rightarrow> None
               | Some nn \<Rightarrow>
                  (case nodes h m of None \<Rightarrow> None
                   | Some mn \<Rightarrow>
                       if key nn < key mn then Some (h\<lparr>heap_min := Some n\<rparr>) else Some h))))"

subsection \<open>Insertion\<close>

definition insertNode :: "FibHeap \<Rightarrow> nat \<Rightarrow> (nat option \<times> FibHeap) option" where
  "insertNode h node = do {
     (newTreeRec, h1) \<leftarrow> addAsLast (FibTree node) 0 h;
     h2 \<leftarrow> updNode node (\<lambda>n. n\<lparr>posInForest := Some newTreeRec\<rparr>) h1;
     h3 \<leftarrow> updateMin h2 (Some node);
     Some (Some node, h3\<lparr>nodesCount := nodesCount h3 + 1\<rparr>)
   }"

definition fhInsert :: "FibHeap option \<Rightarrow> nat \<Rightarrow> 64 word \<Rightarrow> (nat option \<times> FibHeap option) option" where
  "fhInsert heap e k =
     (case heap of None \<Rightarrow> Some (None, None)
      | Some h \<Rightarrow>
          if nodesCount h = ULONG_MAX then Some (None, Some h)
          else do {
            let newNode = nextNode h;
            let h1 = h\<lparr>nodes := (nodes h)(newNode \<mapsto>
                       \<lparr>key = k, elem = e, father = None, firstSon = None, nextBro = None,
                        prevBro = None, posInForest = None, sonsCnt = 0, grief = 0\<rparr>),
                      nextNode := Suc newNode\<rparr>;
            (r, h2) \<leftarrow> insertNode h1 newNode;
            Some (r, Some h2)
          })"

subsection \<open>Decreasing a key and the cascading cut\<close>

text \<open>
  The first half of \<^verbatim>\<open>_cascadedDetach\<close>: \<open>decNode\<close> leaves its brothers and its father and is
  filed as a root. The result carries the father, which the second half looks at.
\<close>

definition detachNode :: "nat \<Rightarrow> FibHeap \<Rightarrow> (nat \<times> FibHeap) option" where
  "detachNode decNode h = do {
     dn \<leftarrow> nodes h decNode;
     fatherp \<leftarrow> father dn;
     fn \<leftarrow> nodes h fatherp;
     h1 \<leftarrow> (if firstSon fn = Some decNode
             then updNode fatherp (\<lambda>n. n\<lparr>firstSon := nextBro dn\<rparr>) h else Some h);
     dn1 \<leftarrow> nodes h1 decNode;
     h2 \<leftarrow> (case prevBro dn1 of None \<Rightarrow> Some h1
             | Some p \<Rightarrow> updNode p (\<lambda>n. n\<lparr>nextBro := nextBro dn1\<rparr>) h1);
     dn2 \<leftarrow> nodes h2 decNode;
     h3 \<leftarrow> (case nextBro dn2 of None \<Rightarrow> Some h2
             | Some q \<Rightarrow> updNode q (\<lambda>n. n\<lparr>prevBro := prevBro dn2\<rparr>) h2);
     h4 \<leftarrow> updNode decNode (\<lambda>n. n\<lparr>father := None, nextBro := None, prevBro := None\<rparr>) h3;
     h5 \<leftarrow> updNode fatherp (\<lambda>n. n\<lparr>sonsCnt := sonsCnt n - 1\<rparr>) h4;
     dn5 \<leftarrow> nodes h5 decNode;
     (newTreeRec, h6) \<leftarrow> addAsLast (FibTree decNode) (unat (sonsCnt dn5)) h5;
     h7 \<leftarrow> updNode decNode (\<lambda>n. n\<lparr>posInForest := Some newTreeRec, grief := 0\<rparr>) h6;
     Some (fatherp, h7)
   }"

text \<open>The last statement of \<^verbatim>\<open>_cascadedDetach\<close>: a root that lost a son moves one list down.\<close>

definition moveDown :: "nat \<Rightarrow> FibHeap \<Rightarrow> FibHeap option" where
  "moveDown fatherp h = do {
     fn \<leftarrow> nodes h fatherp;
     pos \<leftarrow> posInForest fn;
     (r, h1) \<leftarrow> popRecord pos (unat (sonsCnt fn + 1)) h;
     addAsLastRecord r (unat (sonsCnt fn)) h1
   }"

partial_function (option) cascadedDetach :: "FibHeap \<Rightarrow> nat \<Rightarrow> FibHeap option" where
  "cascadedDetach h decNode = do {
     (fatherp, h7) \<leftarrow> detachNode decNode h;
     fn7 \<leftarrow> nodes h7 fatherp;
     if father fn7 \<noteq> None then
       if grief fn7 = 1 then cascadedDetach h7 fatherp
       else updNode fatherp (\<lambda>n. n\<lparr>grief := 1\<rparr>) h7
     else moveDown fatherp h7
   }"

declare cascadedDetach.simps [code]

definition fhDecreaseKey ::
  "FibHeap option \<Rightarrow> nat option \<Rightarrow> 64 word \<Rightarrow> (nat option \<times> FibHeap option) option" where
  "fhDecreaseKey heap node dec =
     (case heap of None \<Rightarrow> Some (None, heap)
      | Some h \<Rightarrow>
         (case node of None \<Rightarrow> Some (None, heap)
          | Some n \<Rightarrow> do {
              h1 \<leftarrow> updNode n (\<lambda>x. x\<lparr>key := key x - dec\<rparr>) h;
              n1 \<leftarrow> nodes h1 n;
              h2 \<leftarrow> (case father n1 of None \<Rightarrow> Some h1
                      | Some f \<Rightarrow> do {
                          fn \<leftarrow> nodes h1 f;
                          if key n1 < key fn then cascadedDetach h1 n else Some h1
                        });
              n2 \<leftarrow> nodes h2 n;
              h3 \<leftarrow> (if father n2 = None then updateMin h2 (Some n) else Some h2);
              Some (Some n, Some h3)
            }))"

subsection \<open>Consolidation\<close>

text \<open>
  One branch of \<^verbatim>\<open>_mergeRecordedTrees\<close>: the root \<open>son\<close> becomes the first child of the root
  \<open>dad\<close>. The two branches of the C function are these statements with the roles swapped.
\<close>

definition makeSon :: "nat \<Rightarrow> nat \<Rightarrow> FibHeap \<Rightarrow> FibHeap option" where
  "makeSon son dad h = do {
     h1 \<leftarrow> updNode son (\<lambda>n. n\<lparr>father := Some dad, nextBro := None, prevBro := None,
                               posInForest := None\<rparr>) h;
     h2 \<leftarrow> updNode dad (\<lambda>n. n\<lparr>sonsCnt := sonsCnt n + 1\<rparr>) h1;
     tn \<leftarrow> nodes h2 dad;
     case firstSon tn of
       Some fs \<Rightarrow> do {
         h3 \<leftarrow> updNode son (\<lambda>n. n\<lparr>nextBro := Some fs\<rparr>) h2;
         h4 \<leftarrow> updNode fs (\<lambda>n. n\<lparr>prevBro := Some son\<rparr>) h3;
         updNode dad (\<lambda>n. n\<lparr>firstSon := Some son\<rparr>) h4
       }
     | None \<Rightarrow> updNode dad (\<lambda>n. n\<lparr>firstSon := Some son\<rparr>) h2
   }"

definition mergeRecordedTrees ::
  "FibTree \<Rightarrow> FibTree \<Rightarrow> nat \<Rightarrow> nat \<Rightarrow> FibHeap \<Rightarrow> (nat \<times> FibHeap) option" where
  "mergeRecordedTrees tree otherTree firstTreeRecord otherTreeRecord h = do {
     let thisRoot = root tree;
     let otherRoot = root otherTree;
     tn \<leftarrow> nodes h thisRoot;
     on \<leftarrow> nodes h otherRoot;
     if key tn \<le> key on then do {
       h1 \<leftarrow> makeSon otherRoot thisRoot h;
       Some (firstTreeRecord, eraseRecord otherTreeRecord h1)
     } else do {
       h1 \<leftarrow> makeSon thisRoot otherRoot h;
       Some (otherTreeRecord, eraseRecord firstTreeRecord h1)
     }
   }"

text \<open>
  The growth step of \<^verbatim>\<open>_rebuild\<close>: \<^verbatim>\<open>reallocarray\<close> to \<^verbatim>\<open>_maxTreeOrd + 1\<close> lists and a new
  empty list at the end. A count that wraps to 0 leaves no array to write to.
\<close>

definition extendForest :: "nat \<Rightarrow> FibHeap \<Rightarrow> FibHeap option" where
  "extendForest i h =
     (if length (forest h) \<le> i + 1 then
        if (of_nat (length (forest h)) :: 64 word) + 1 = 0 then None
        else Some (h\<lparr>forest := forest h @ [createDLList]\<rparr>)
      else Some h)"

text \<open>The loops of \<^verbatim>\<open>_rebuild\<close>, from bucket \<open>i\<close> on.\<close>

definition mergeStep :: "nat \<Rightarrow> FibHeap \<Rightarrow> FibHeap option" where
  "mergeStep i h = do {
     (aRecordedTree, h1) \<leftarrow> popFirstRecord i h;
     (bRecordedTree, h2) \<leftarrow> popLastRecord i h1;
     aTree \<leftarrow> recs h2 aRecordedTree;
     bTree \<leftarrow> recs h2 bRecordedTree;
     (newRecordedTree, h3) \<leftarrow> mergeRecordedTrees aTree bTree aRecordedTree bRecordedTree h2;
     h4 \<leftarrow> extendForest i h3;
     addAsLastRecord newRecordedTree (i + 1) h4
   }"

partial_function (option) rebuildFrom :: "nat \<Rightarrow> FibHeap \<Rightarrow> FibHeap option" where
  "rebuildFrom i h =
     (if i < length (forest h) then
        if 1 < recsCount (forest h ! i) then do {
          h' \<leftarrow> mergeStep i h;
          rebuildFrom i h'
        } else rebuildFrom (i + 1) h
      else Some h)"

declare rebuildFrom.simps [code]

definition rebuild :: "FibHeap \<Rightarrow> FibHeap option" where
  "rebuild h = do {
     h1 \<leftarrow> rebuildFrom 0 h;
     updateMin h1 None
   }"

subsection \<open>Deleting the minimum\<close>

partial_function (option) cutLoop :: "FibHeap \<Rightarrow> nat option \<Rightarrow> FibHeap option" where
  "cutLoop h currSon =
     (case currSon of None \<Rightarrow> Some h
      | Some c \<Rightarrow> do {
          h1 \<leftarrow> updNode c (\<lambda>n. n\<lparr>father := None\<rparr>) h;
          cn \<leftarrow> nodes h1 c;
          cutLoop h1 (nextBro cn)
        })"

declare cutLoop.simps [code]

definition cutSubtrees :: "FibTree \<Rightarrow> FibHeap \<Rightarrow> FibHeap option" where
  "cutSubtrees tree h = do {
     rn \<leftarrow> nodes h (root tree);
     cutLoop h (firstSon rn)
   }"

text \<open>The loop of \<^verbatim>\<open>fhDeleteMin\<close> that files the sons of the removed root as new roots.\<close>

partial_function (option) newRootsLoop :: "FibHeap \<Rightarrow> nat option \<Rightarrow> FibHeap option" where
  "newRootsLoop h newRoot =
     (case newRoot of None \<Rightarrow> Some h
      | Some c \<Rightarrow> do {
          cn \<leftarrow> nodes h c;
          let nextOne = nextBro cn;
          h1 \<leftarrow> updNode c (\<lambda>n. n\<lparr>nextBro := None, prevBro := None\<rparr>) h;
          cn1 \<leftarrow> nodes h1 c;
          (newTreeRec, h2) \<leftarrow> addAsLast (FibTree c) (unat (sonsCnt cn1)) h1;
          h3 \<leftarrow> updNode c (\<lambda>n. n\<lparr>posInForest := Some newTreeRec\<rparr>) h2;
          newRootsLoop h3 nextOne
        })"

declare newRootsLoop.simps [code]

definition fhDeleteMin :: "FibHeap option \<Rightarrow> (nat option \<times> FibHeap option) option" where
  "fhDeleteMin heap =
     (case heap of None \<Rightarrow> Some (None, None)
      | Some h \<Rightarrow>
          if isHeapEmpty heap \<noteq> 0 then Some (None, heap)
          else do {
            minNode \<leftarrow> heap_min h;
            mn \<leftarrow> nodes h minNode;
            pos \<leftarrow> posInForest mn;
            minTree \<leftarrow> recs h pos;
            (treeRecord, h1) \<leftarrow> popRecord pos (unat (sonsCnt mn)) h;
            let h2 = eraseRecord treeRecord h1;
            h3 \<leftarrow> cutSubtrees minTree h2;
            mn3 \<leftarrow> nodes h3 minNode;
            h4 \<leftarrow> newRootsLoop h3 (firstSon mn3);
            h5 \<leftarrow> rebuild h4;
            let h6 = h5\<lparr>nodesCount := nodesCount h5 - 1\<rparr>;
            h7 \<leftarrow> updNode minNode (\<lambda>n. n\<lparr>father := None, firstSon := None, nextBro := None,
                        prevBro := None, posInForest := None, grief := 0, sonsCnt := 0\<rparr>) h6;
            Some (Some minNode, Some h7)
          })"

subsection \<open>Deleting a node, increasing a key\<close>

definition fhDelete :: "FibHeap option \<Rightarrow> nat option \<Rightarrow> (nat option \<times> FibHeap option) option" where
  "fhDelete heap node =
     (case heap of None \<Rightarrow> Some (None, heap)
      | Some h \<Rightarrow>
         (case node of None \<Rightarrow> Some (None, heap)
          | Some n \<Rightarrow> do {
              nn \<leftarrow> nodes h n;
              let k = key nn;
              (r1, heap1) \<leftarrow> fhDecreaseKey heap node (key nn);
              (deleted, heap2) \<leftarrow> fhDeleteMin heap1;
              d \<leftarrow> deleted;
              h2 \<leftarrow> heap2;
              h3 \<leftarrow> updNode d (\<lambda>x. x\<lparr>key := k\<rparr>) h2;
              Some (deleted, Some h3)
            }))"

definition fhIncreaseKey ::
  "FibHeap option \<Rightarrow> nat option \<Rightarrow> 64 word \<Rightarrow> (nat option \<times> FibHeap option) option" where
  "fhIncreaseKey heap node inc =
     (case heap of None \<Rightarrow> Some (None, heap)
      | Some h \<Rightarrow>
         (case node of None \<Rightarrow> Some (None, heap)
          | Some n \<Rightarrow> do {
              (deletedNode, heap1) \<leftarrow> fhDelete heap node;
              d \<leftarrow> deletedNode;
              h1 \<leftarrow> heap1;
              h2 \<leftarrow> updNode d (\<lambda>x. x\<lparr>key := key x + inc\<rparr>) h1;
              (r, h3) \<leftarrow> insertNode h2 d;
              Some (deletedNode, Some h3)
            }))"

subsection \<open>Destruction\<close>








section \<open>The vocabulary of the specification\<close>

subsection \<open>Runs of the public operations\<close>

datatype op =
    Insert nat "64 word"
  | DecreaseKey nat "64 word"
  | DeleteMin
  | Delete nat
  | IncreaseKey nat "64 word"

text \<open>One public call on an existing heap: the pointer it returns and the heap afterwards.\<close>

fun step :: "FibHeap \<Rightarrow> op \<Rightarrow> (nat option \<times> FibHeap) option" where
  "step h (Insert e k) =
     (case fhInsert (Some h) e k of Some (r, Some h') \<Rightarrow> Some (r, h') | _ \<Rightarrow> None)"
| "step h (DecreaseKey n d) =
     (case fhDecreaseKey (Some h) (Some n) d of Some (r, Some h') \<Rightarrow> Some (r, h') | _ \<Rightarrow> None)"
| "step h DeleteMin =
     (case fhDeleteMin (Some h) of Some (r, Some h') \<Rightarrow> Some (r, h') | _ \<Rightarrow> None)"
| "step h (Delete n) =
     (case fhDelete (Some h) (Some n) of Some (r, Some h') \<Rightarrow> Some (r, h') | _ \<Rightarrow> None)"
| "step h (IncreaseKey n i) =
     (case fhIncreaseKey (Some h) (Some n) i of Some (r, Some h') \<Rightarrow> Some (r, h') | _ \<Rightarrow> None)"

fun exec :: "FibHeap \<Rightarrow> op list \<Rightarrow> FibHeap option" where
  "exec h [] = Some h"
| "exec h (x # xs) = (case step h x of None \<Rightarrow> None | Some (r, h') \<Rightarrow> exec h' xs)"

text \<open>A heap created with room for \<open>cap\<close> ranks, after the calls \<open>ops\<close>.\<close>

definition run :: "64 word \<Rightarrow> op list \<Rightarrow> FibHeap option" where
  "run cap ops = (case createFibHeap cap of None \<Rightarrow> None | Some h \<Rightarrow> exec h ops)"

text \<open>Every state that the public operations can produce from a fresh heap, whatever
  their arguments.\<close>

inductive reachable :: "FibHeap \<Rightarrow> bool" where
  r_create: "createFibHeap n = Some h \<Longrightarrow> reachable h"
| r_insert: "reachable h \<Longrightarrow> fhInsert (Some h) e k = Some (r, Some h') \<Longrightarrow> reachable h'"
| r_decrease: "reachable h \<Longrightarrow> fhDecreaseKey (Some h) node dec = Some (r, Some h')
     \<Longrightarrow> reachable h'"
| r_deleteMin: "reachable h \<Longrightarrow> fhDeleteMin (Some h) = Some (r, Some h') \<Longrightarrow> reachable h'"
| r_delete: "reachable h \<Longrightarrow> fhDelete (Some h) node = Some (r, Some h') \<Longrightarrow> reachable h'"
| r_increase: "reachable h \<Longrightarrow> fhIncreaseKey (Some h) node inc = Some (r, Some h')
     \<Longrightarrow> reachable h'"

subsection \<open>Live nodes and the invariants of the data model\<close>

text \<open>The roots are the nodes that the records of the forest point to.\<close>

definition is_root :: "FibHeap \<Rightarrow> nat \<Rightarrow> bool" where
  "is_root h x = (\<exists>r \<in> set (concat (forest h)). recs h r = Some (FibTree x))"

text \<open>The live nodes are those a traversal from the roots visits: the roots, first sons
  and next brothers.\<close>

inductive live :: "FibHeap \<Rightarrow> nat \<Rightarrow> bool" for h where
  live_root: "is_root h x \<Longrightarrow> live h x"
| live_son: "live h p \<Longrightarrow> nodes h p = Some pn \<Longrightarrow> firstSon pn = Some c \<Longrightarrow> live h c"
| live_bro: "live h c \<Longrightarrow> nodes h c = Some cn \<Longrightarrow> nextBro cn = Some d \<Longrightarrow> live h d"

definition heap_order :: "FibHeap \<Rightarrow> bool" where
  "heap_order h =
     (\<forall>c cn p. live h c \<and> nodes h c = Some cn \<and> father cn = Some p \<longrightarrow>
        (\<exists>pn. nodes h p = Some pn \<and> key pn \<le> key cn))"

definition min_correct :: "FibHeap \<Rightarrow> bool" where
  "min_correct h =
     ((heap_min h = None \<longleftrightarrow> isHeapEmpty (Some h) = 1) \<and>
      (\<forall>m. heap_min h = Some m \<longrightarrow>
         live h m \<and>
         (\<exists>mn. nodes h m = Some mn \<and>
            (\<forall>x xn. live h x \<and> nodes h x = Some xn \<longrightarrow> key mn \<le> key xn))))"

definition roots_unmarked :: "FibHeap \<Rightarrow> bool" where
  "roots_unmarked h = (\<forall>x xn. is_root h x \<and> nodes h x = Some xn \<longrightarrow> grief xn = 0)"

text \<open>
  Proper use of the library with keys up to \<open>B\<close>: node arguments are live nodes of the heap,
  a key is never decreased below 0, and no key above \<open>B\<close> is put into the heap.
\<close>

inductive reach :: "64 word \<Rightarrow> FibHeap \<Rightarrow> bool" for B where
  p_create: "createFibHeap n = Some h \<Longrightarrow> reach B h"
| p_insert: "reach B h \<Longrightarrow> k \<le> B \<Longrightarrow> fhInsert (Some h) e k = Some (r, Some h')
     \<Longrightarrow> reach B h'"
| p_decrease: "reach B h \<Longrightarrow> live h n \<Longrightarrow> nodes h n = Some nn \<Longrightarrow> dec \<le> key nn \<Longrightarrow>
     fhDecreaseKey (Some h) (Some n) dec = Some (r, Some h') \<Longrightarrow> reach B h'"
| p_deleteMin: "reach B h \<Longrightarrow> fhDeleteMin (Some h) = Some (r, Some h') \<Longrightarrow> reach B h'"
| p_delete: "reach B h \<Longrightarrow> live h n \<Longrightarrow> fhDelete (Some h) (Some n) = Some (r, Some h')
     \<Longrightarrow> reach B h'"
| p_increase: "reach B h \<Longrightarrow> live h n \<Longrightarrow> nodes h n = Some nn \<Longrightarrow>
     unat (key nn) + unat inc \<le> unat B \<Longrightarrow>
     fhIncreaseKey (Some h) (Some n) inc = Some (r, Some h') \<Longrightarrow> reach B h'"

subsection \<open>Heapsort\<close>

fun insertAll :: "FibHeap \<Rightarrow> 64 word list \<Rightarrow> FibHeap option" where
  "insertAll h [] = Some h"
| "insertAll h (k # ks) =
     (case fhInsert (Some h) 0 k of
        Some (Some n, Some h') \<Rightarrow> insertAll h' ks
      | _ \<Rightarrow> None)"

text \<open>\<open>n\<close> calls of \<^verbatim>\<open>fhDeleteMin\<close>, with the keys of the nodes they return.\<close>

fun deleteMins :: "nat \<Rightarrow> FibHeap \<Rightarrow> (64 word list \<times> FibHeap) option" where
  "deleteMins 0 h = Some ([], h)"
| "deleteMins (Suc n) h =
     (case fhDeleteMin (Some h) of
        Some (Some m, Some h') \<Rightarrow>
          (case nodes h' m of None \<Rightarrow> None
           | Some mn \<Rightarrow>
              (case deleteMins n h' of None \<Rightarrow> None
               | Some (ks, h'') \<Rightarrow> Some (key mn # ks, h'')))
      | _ \<Rightarrow> None)"

definition heapsort :: "64 word \<Rightarrow> 64 word list \<Rightarrow> (64 word list \<times> FibHeap) option" where
  "heapsort cap ks =
     (case createFibHeap cap of None \<Rightarrow> None
      | Some h0 \<Rightarrow>
         (case insertAll h0 ks of None \<Rightarrow> None
          | Some h1 \<Rightarrow> deleteMins (length ks) h1))"

subsection \<open>Auxiliary notions\<close>

text \<open>One field of all nodes at once: \<open>view F h a\<close> is the field \<open>F\<close> of the node at \<open>a\<close>.\<close>

definition view :: "(FibTreeNode \<Rightarrow> 'a) \<Rightarrow> FibHeap \<Rightarrow> nat \<Rightarrow> 'a option" where
  "view F h a = map_option F (nodes h a)"


subsection \<open>Checking the invariants on a given list of nodes\<close>

text \<open>Executable forms of the invariants, for a list \<open>S\<close> that holds every live node.\<close>

definition closed_under :: "FibHeap \<Rightarrow> nat list \<Rightarrow> bool" where
  "closed_under h S =
     ((\<forall>r \<in> set (concat (forest h)).
         case recs h r of None \<Rightarrow> True | Some t \<Rightarrow> root t \<in> set S) \<and>
      (\<forall>p \<in> set S.
         case nodes h p of None \<Rightarrow> True
         | Some pn \<Rightarrow>
            (case firstSon pn of None \<Rightarrow> True | Some c \<Rightarrow> c \<in> set S) \<and>
            (case nextBro pn of None \<Rightarrow> True | Some c \<Rightarrow> c \<in> set S)))"

definition heap_order_on :: "FibHeap \<Rightarrow> nat list \<Rightarrow> bool" where
  "heap_order_on h S =
     (\<forall>c \<in> set S.
        case nodes h c of None \<Rightarrow> True
        | Some cn \<Rightarrow>
           (case father cn of None \<Rightarrow> True
            | Some p \<Rightarrow> (case nodes h p of None \<Rightarrow> False | Some pn \<Rightarrow> key pn \<le> key cn)))"

definition min_correct_on :: "FibHeap \<Rightarrow> nat list \<Rightarrow> bool" where
  "min_correct_on h S =
     ((heap_min h = None \<longleftrightarrow> isHeapEmpty (Some h) = 1) \<and>
      (case heap_min h of None \<Rightarrow> True
       | Some m \<Rightarrow>
          (\<exists>r \<in> set (concat (forest h)). recs h r = Some (FibTree m)) \<and>
          (case nodes h m of None \<Rightarrow> False
           | Some mn \<Rightarrow>
              (\<forall>x \<in> set S. case nodes h x of None \<Rightarrow> True | Some xn \<Rightarrow> key mn \<le> key xn))))"

subsection \<open>Well-formed heaps\<close>

text \<open>
  The sons of a node form a doubly linked list that starts at \<^verbatim>\<open>_firstSon\<close>.
  \<open>chain nb pb prev x ks\<close> says that following \<^verbatim>\<open>_nextBro\<close> (\<open>nb\<close>) from the pointer \<open>x\<close>
  visits exactly the nodes \<open>ks\<close> and ends in \<^verbatim>\<open>NULL\<close>, and that \<^verbatim>\<open>_prevBro\<close> (\<open>pb\<close>) of each
  node is the node before it (\<open>prev\<close> for the first). The fields are read through \<open>view\<close>, so
  \<open>nb k = Some y\<close> also says that \<open>k\<close> is allocated.
\<close>

fun chain :: "(nat \<Rightarrow> nat option option) \<Rightarrow> (nat \<Rightarrow> nat option option) \<Rightarrow>
    nat option \<Rightarrow> nat option \<Rightarrow> nat list \<Rightarrow> bool" where
  "chain nb pb prev x [] = (x = None)"
| "chain nb pb prev x (k # ks) =
     (x = Some k \<and> pb k = Some prev \<and> (\<exists>y. nb k = Some y \<and> chain nb pb (Some k) y ks))"

text \<open>The pairs (son, father) of the \<^verbatim>\<open>_father\<close> pointers.\<close>

definition edges :: "FibHeap \<Rightarrow> (nat \<times> nat) set" where
  "edges h = {(c, p). view father h c = Some (Some p)}"

text \<open>A node is in the heap when it has a father or a record in the forest.\<close>

definition inheap :: "FibHeap \<Rightarrow> nat \<Rightarrow> bool" where
  "inheap h x \<longleftrightarrow> (\<exists>xn. nodes h x = Some xn \<and> (father xn \<noteq> None \<or> posInForest xn \<noteq> None))"

text \<open>
  The trees. \<open>K p\<close> lists the sons of \<open>p\<close> in the order of the sibling list; it is not part
  of the memory, and \<open>well_formed\<close> below only asks that some \<open>K\<close> exists. The clauses say:
  the \<^verbatim>\<open>_father\<close> pointers and the lists of sons agree; no son is listed twice; the sibling
  list of \<open>p\<close> is \<open>K p\<close> and \<^verbatim>\<open>_sonsCnt\<close> is its length; free addresses have no sons; a node
  without father has no brothers; no node is its own ancestor; allocated addresses are below
  the next one that the allocator returns.

  Two sets describe the states in the middle of \<^verbatim>\<open>fhDeleteMin\<close>; both are empty between
  calls. \<open>X\<close> holds the root that is being removed (its \<^verbatim>\<open>_firstSon\<close>, \<^verbatim>\<open>_sonsCnt\<close> and
  \<^verbatim>\<open>_posInForest\<close> are stale until the final reset), \<open>Y\<close> its former sons that are not yet
  filed as roots (their brother pointers are stale).
\<close>

definition wf_tree :: "nat set \<Rightarrow> nat set \<Rightarrow> FibHeap \<Rightarrow> (nat \<Rightarrow> nat list) \<Rightarrow> bool" where
  "wf_tree X Y h K \<longleftrightarrow>
     (\<forall>c p. view father h c = Some (Some p) \<longleftrightarrow> c \<in> set (K p)) \<and>
     (\<forall>p. distinct (K p)) \<and>
     (\<forall>p y. p \<notin> X \<longrightarrow> view firstSon h p = Some y \<longrightarrow>
        chain (view nextBro h) (view prevBro h) None y (K p)) \<and>
     (\<forall>p s. p \<notin> X \<longrightarrow> view sonsCnt h p = Some s \<longrightarrow> unat s = length (K p)) \<and>
     (\<forall>p. nodes h p = None \<longrightarrow> K p = []) \<and>
     (\<forall>x. x \<notin> Y \<longrightarrow> view father h x = Some None \<longrightarrow>
        view nextBro h x = Some None \<and> view prevBro h x = Some None) \<and>
     acyclic (edges h) \<and>
     (\<forall>x \<in> X. view father h x = Some None \<and> K x = []) \<and>
     (\<forall>a. nodes h a \<noteq> None \<longrightarrow> a < nextNode h)"

text \<open>
  The forest. The clauses say: no list holds a record twice; there is at least one list and
  fewer than \<open>2 ^ 64\<close> (\<^verbatim>\<open>_maxTreeOrd\<close> is a \<^verbatim>\<open>ulong\<close>); every record in list \<open>i\<close> points
  to a node without father whose \<^verbatim>\<open>_posInForest\<close> is that record and whose \<^verbatim>\<open>_sonsCnt\<close>
  is \<open>i\<close>; the \<^verbatim>\<open>_posInForest\<close> of a node is a record of the forest that points back to
  the node; a node without father and without record has no sons; every \<^verbatim>\<open>_sonsCnt\<close> is
  an index of the forest; the records are below the next one that the list library
  allocates.

  \<open>D\<close> describes the states in the middle of \<^verbatim>\<open>_cascadedDetach\<close>, and is empty between
  calls: it holds the root that has just lost a son and whose record is still in the list
  one rank higher.
\<close>

definition wf_forest :: "nat set \<Rightarrow> nat set \<Rightarrow> nat set \<Rightarrow> FibHeap \<Rightarrow> bool" where
  "wf_forest X Y D h \<longleftrightarrow>
     (\<forall>i < length (forest h). distinct (forest h ! i)) \<and>
     forest h \<noteq> [] \<and> length (forest h) < 2 ^ 64 \<and>
     (\<forall>i r. i < length (forest h) \<longrightarrow> r \<in> set (forest h ! i) \<longrightarrow>
        (\<exists>x s. x \<notin> X \<and> recs h r = Some (FibTree x) \<and>
               view posInForest h x = Some (Some r) \<and>
               view father h x = Some None \<and> view sonsCnt h x = Some s \<and>
               i = (if x \<in> D then unat s + 1 else unat s))) \<and>
     (\<forall>x r. x \<notin> X \<longrightarrow> view posInForest h x = Some (Some r) \<longrightarrow>
        (\<exists>i < length (forest h). r \<in> set (forest h ! i)) \<and> recs h r = Some (FibTree x)) \<and>
     (\<forall>x. x \<notin> Y \<longrightarrow> x \<notin> X \<longrightarrow> view father h x = Some None \<longrightarrow>
        view posInForest h x = Some None \<longrightarrow> view firstSon h x = Some None) \<and>
     (\<forall>x s. view sonsCnt h x = Some s \<longrightarrow> unat s < length (forest h)) \<and>
     (\<forall>i r. i < length (forest h) \<longrightarrow> r \<in> set (forest h ! i) \<longrightarrow> r < nextRec h) \<and>
     (\<forall>x \<in> X. \<exists>r. view posInForest h x = Some (Some r)) \<and>
     (\<forall>x \<in> Y. view father h x = Some None \<and> view posInForest h x = Some None)"

text \<open>The cached minimum, when there is one, is a root.\<close>

definition min_root :: "FibHeap \<Rightarrow> bool" where
  "min_root h \<longleftrightarrow> (\<forall>m. heap_min h = Some m \<longrightarrow> (\<exists>r. view posInForest h m = Some (Some r)))"

text \<open>\<^verbatim>\<open>_nodesCount\<close> is at least the number of nodes in the heap (and of those in \<open>Y\<close>).\<close>

definition counted :: "nat set \<Rightarrow> FibHeap \<Rightarrow> bool" where
  "counted Y h \<longleftrightarrow> card ({x. inheap h x} \<union> Y) \<le> unat (nodesCount h)"

text \<open>
  A valid heap, as far as the pointers go. Nothing is asked of the keys or of the marks:
  heap order and the correctness of the minimum are \<open>heap_order\<close> and \<open>min_correct\<close>.
\<close>

definition well_formed :: "FibHeap \<Rightarrow> bool" where
  "well_formed h \<longleftrightarrow>
     (\<exists>K. wf_tree {} {} h K) \<and> wf_forest {} {} {} h \<and> min_root h \<and> counted {} h"

text \<open>
  \<open>detachNode\<close> in two halves: the node leaves its father and its brothers, then it is
  filed as a root. \<open>detachNode_unlink\<close> below shows that \<open>detachNode\<close> is the first followed
  by the second.
\<close>

definition unlinkNode :: "nat \<Rightarrow> FibHeap \<Rightarrow> (nat \<times> FibHeap) option" where
  "unlinkNode decNode h = do {
     dn \<leftarrow> nodes h decNode;
     fatherp \<leftarrow> father dn;
     fn \<leftarrow> nodes h fatherp;
     h1 \<leftarrow> (if firstSon fn = Some decNode
             then updNode fatherp (\<lambda>n. n\<lparr>firstSon := nextBro dn\<rparr>) h else Some h);
     dn1 \<leftarrow> nodes h1 decNode;
     h2 \<leftarrow> (case prevBro dn1 of None \<Rightarrow> Some h1
             | Some p \<Rightarrow> updNode p (\<lambda>n. n\<lparr>nextBro := nextBro dn1\<rparr>) h1);
     dn2 \<leftarrow> nodes h2 decNode;
     h3 \<leftarrow> (case nextBro dn2 of None \<Rightarrow> Some h2
             | Some q \<Rightarrow> updNode q (\<lambda>n. n\<lparr>prevBro := prevBro dn2\<rparr>) h2);
     h4 \<leftarrow> updNode decNode (\<lambda>n. n\<lparr>father := None, nextBro := None, prevBro := None\<rparr>) h3;
     h5 \<leftarrow> updNode fatherp (\<lambda>n. n\<lparr>sonsCnt := sonsCnt n - 1\<rparr>) h4;
     Some (fatherp, h5)
   }"

definition fileNode :: "nat \<Rightarrow> FibHeap \<Rightarrow> FibHeap option" where
  "fileNode c h = do {
     cn \<leftarrow> nodes h c;
     (newTreeRec, h1) \<leftarrow> addAsLast (FibTree c) (unat (sonsCnt cn)) h;
     updNode c (\<lambda>n. n\<lparr>posInForest := Some newTreeRec, grief := 0\<rparr>) h1
   }"

text \<open>
  What a cascading cut from \<open>h\<close> to \<open>h'\<close> does to the nodes in \<open>C\<close>: each had a father and is
  now a root; the other nodes keep their father and their record; no key changes.
\<close>

definition cut_result :: "FibHeap \<Rightarrow> FibHeap \<Rightarrow> nat set \<Rightarrow> bool" where
  "cut_result h h' C \<longleftrightarrow>
     view father h' = (\<lambda>x. if x \<in> C then Some None else view father h x) \<and>
     (\<forall>x. x \<notin> C \<longrightarrow> view posInForest h' x = view posInForest h x) \<and>
     (\<forall>x \<in> C. (\<exists>p. view father h x = Some (Some p)) \<and>
                (\<exists>r. view posInForest h' x = Some (Some r))) \<and>
     view key h' = view key h \<and> view elem h' = view elem h \<and>
     heap_min h' = heap_min h \<and> nodesCount h' = nodesCount h \<and> nextNode h' = nextNode h"

text \<open>
  An example: the root 0 with key 1 and its only son 1 with key 3, in a forest of two
  lists.
\<close>

definition father_and_son :: FibHeap where
  "father_and_son =
     \<lparr>forest = [[], [0]], heap_min = Some 0, nodesCount = 2,
      nodes = [0 \<mapsto> \<lparr>key = 1, elem = 0, father = None, firstSon = Some 1, nextBro = None,
                     prevBro = None, posInForest = Some 0, sonsCnt = 1, grief = 0\<rparr>,
               1 \<mapsto> \<lparr>key = 3, elem = 0, father = Some 0, firstSon = None, nextBro = None,
                     prevBro = None, posInForest = None, sonsCnt = 0, grief = 0\<rparr>],
      recs = [0 \<mapsto> FibTree 0], nextNode = 2, nextRec = 1\<rparr>"


section \<open>Primitive steps and what they leave alone\<close>

lemma updNode_Some: "updNode a f h = Some h' \<longleftrightarrow> (\<exists>n. nodes h a = Some n \<and> h' = h\<lparr>nodes := (nodes h)(a \<mapsto> f n)\<rparr>)"
  by (auto simp: updNode_def split: option.splits)

lemma addAsLastRecord_Some: "addAsLastRecord r i h = Some h' \<longleftrightarrow>
   i < length (forest h) \<and> h' = h\<lparr>forest := (forest h)[i := forest h ! i @ [r]]\<rparr>"
  by (auto simp: addAsLastRecord_def bucket_def split: option.splits)

lemma addAsLast_Some: "addAsLast t i h = Some (r, h') \<longleftrightarrow>
   r = nextRec h \<and> i < length (forest h) \<and>
   h' = h\<lparr>recs := (recs h)(nextRec h \<mapsto> t), nextRec := Suc (nextRec h),
          forest := (forest h)[i := forest h ! i @ [nextRec h]]\<rparr>"
  unfolding addAsLast_def Let_def addAsLastRecord_def bucket_def by (auto split: option.splits)

lemma popRecord_Some: "popRecord r i h = Some (r', h') \<longleftrightarrow>
   r' = r \<and> i < length (forest h) \<and> r \<in> set (forest h ! i) \<and>
   h' = h\<lparr>forest := (forest h)[i := remove1 r (forest h ! i)]\<rparr>"
  by (auto simp: popRecord_def bucket_def split: option.splits)

lemma popFirstRecord_Some: "popFirstRecord i h = Some (r, h') \<longleftrightarrow>
   i < length (forest h) \<and> forest h ! i \<noteq> [] \<and> r = hd (forest h ! i) \<and>
   h' = h\<lparr>forest := (forest h)[i := tl (forest h ! i)]\<rparr>"
  by (auto simp: popFirstRecord_def bucket_def split: option.splits)

lemma popLastRecord_Some: "popLastRecord i h = Some (r, h') \<longleftrightarrow>
   i < length (forest h) \<and> forest h ! i \<noteq> [] \<and> r = last (forest h ! i) \<and>
   h' = h\<lparr>forest := (forest h)[i := butlast (forest h ! i)]\<rparr>"
  by (auto simp: popLastRecord_def bucket_def split: option.splits)

text \<open>What a step leaves alone.\<close>

lemma updNode_frame:
  assumes "updNode a f h = Some h'"
  shows "forest h' = forest h" "heap_min h' = heap_min h" "nodesCount h' = nodesCount h"
    "recs h' = recs h" "nextNode h' = nextNode h" "nextRec h' = nextRec h"
    "dom (nodes h') = dom (nodes h)"
  using assms by (auto simp: updNode_Some split: if_splits)

lemma addAsLast_frame:
  assumes "addAsLast t i h = Some (r, h')"
  shows "nodes h' = nodes h" "heap_min h' = heap_min h" "nodesCount h' = nodesCount h"
    "nextNode h' = nextNode h"
  using assms by (auto simp: addAsLast_Some)

lemma addAsLastRecord_frame:
  assumes "addAsLastRecord r i h = Some h'"
  shows "nodes h' = nodes h" "heap_min h' = heap_min h" "nodesCount h' = nodesCount h"
    "nextNode h' = nextNode h" "recs h' = recs h" "nextRec h' = nextRec h"
  using assms by (auto simp: addAsLastRecord_Some)

lemma popRecord_frame:
  assumes "popRecord r i h = Some (r', h')"
  shows "nodes h' = nodes h" "heap_min h' = heap_min h" "nodesCount h' = nodesCount h"
    "nextNode h' = nextNode h" "recs h' = recs h" "nextRec h' = nextRec h"
  using assms by (auto simp: popRecord_Some)

lemma updateMin_frame:
  assumes "updateMin h x = Some h'"
  shows "nodes h' = nodes h" "forest h' = forest h" "nodesCount h' = nodesCount h"
    "nextNode h' = nextNode h" "recs h' = recs h" "nextRec h' = nextRec h"
  using assms by (auto simp: updateMin_def split: if_splits option.splits prod.splits)

lemma view_eq_nodes: "nodes h' = nodes h \<Longrightarrow> view F h' = view F h"
  by (simp add: view_def fun_eq_iff)

lemma view_addAsLast: "addAsLast t i h = Some (r, h') \<Longrightarrow> view F h' = view F h"
  by (rule view_eq_nodes[OF addAsLast_frame(1)])

lemma view_addAsLastRecord: "addAsLastRecord r i h = Some h' \<Longrightarrow> view F h' = view F h"
  by (rule view_eq_nodes[OF addAsLastRecord_frame(1)])

lemma view_popRecord: "popRecord r i h = Some (r', h') \<Longrightarrow> view F h' = view F h"
  by (rule view_eq_nodes[OF popRecord_frame(1)])

lemma view_updateMin: "updateMin h x = Some h' \<Longrightarrow> view F h' = view F h"
  by (rule view_eq_nodes[OF updateMin_frame(1)])

lemma view_updNode_same:
  "updNode a f h = Some h' \<Longrightarrow> (\<And>n. F (f n) = F n) \<Longrightarrow> view F h' = view F h"
  by (auto simp: updNode_Some view_def fun_eq_iff)

lemma view_updNode:
  "updNode a f h = Some h' \<Longrightarrow> view F h' = (view F h)(a := map_option (F \<circ> f) (nodes h a))"
  by (auto simp: updNode_Some view_def fun_eq_iff)

section \<open>The cascading cut\<close>

lemma cascadedDetach_induct [consumes 1, case_names again mark root]:
  assumes run: "cascadedDetach h d = Some h'"
    and again: "\<And>h d h' f h7 fn7. detachNode d h = Some (f, h7) \<Longrightarrow> nodes h7 f = Some fn7 \<Longrightarrow>
       father fn7 \<noteq> None \<Longrightarrow> grief fn7 = 1 \<Longrightarrow> cascadedDetach h7 f = Some h' \<Longrightarrow> P h7 f h' \<Longrightarrow> P h d h'"
    and mark: "\<And>h d h' f h7 fn7. detachNode d h = Some (f, h7) \<Longrightarrow> nodes h7 f = Some fn7 \<Longrightarrow>
       father fn7 \<noteq> None \<Longrightarrow> grief fn7 \<noteq> 1 \<Longrightarrow> updNode f (\<lambda>n. n\<lparr>grief := 1\<rparr>) h7 = Some h' \<Longrightarrow> P h d h'"
    and root: "\<And>h d h' f h7 fn7. detachNode d h = Some (f, h7) \<Longrightarrow> nodes h7 f = Some fn7 \<Longrightarrow>
       father fn7 = None \<Longrightarrow> moveDown f h7 = Some h' \<Longrightarrow> P h d h'"
  shows "P h d h'"
proof -
  have "cascadedDetach h d = Some h' \<and> P h d h'"
  proof (rule cascadedDetach.raw_induct[where P = "\<lambda>h d h'. cascadedDetach h d = Some h' \<and> P h d h'", OF _ run])
    fix cd h d h'
    assume IH: "\<And>h d h'. cd h d = Some h' \<Longrightarrow> cascadedDetach h d = Some h' \<and> P h d h'"
    assume body: "detachNode d h \<bind> (\<lambda>(fatherp, h7). nodes h7 fatherp \<bind>
       (\<lambda>fn7. if father fn7 \<noteq> None then if grief fn7 = 1 then cd h7 fatherp
                else updNode fatherp (\<lambda>n. n\<lparr>grief := 1\<rparr>) h7 else moveDown fatherp h7)) = Some h'"
    then obtain f h7 fn7 where
      d: "detachNode d h = Some (f, h7)" and fn7: "nodes h7 f = Some fn7" and
      r: "(if father fn7 \<noteq> None then if grief fn7 = 1 then cd h7 f
           else updNode f (\<lambda>n. n\<lparr>grief := 1\<rparr>) h7 else moveDown f h7) = Some h'"
      by (auto split: bind_splits)
    show "cascadedDetach h d = Some h' \<and> P h d h'"
    proof (cases "father fn7 \<noteq> None")
      case True
      show ?thesis
      proof (cases "grief fn7 = 1")
        case g: True
        with True r have "cd h7 f = Some h'" by simp
        from IH[OF this] have c: "cascadedDetach h7 f = Some h'" and p: "P h7 f h'" by auto
        have "cascadedDetach h d = Some h'"
          by (subst cascadedDetach.simps) (simp add: d fn7 True g c)
        moreover have "P h d h'" by (rule again[OF d fn7 True g c p])
        ultimately show ?thesis by simp
      next
        case g: False
        with True r have u: "updNode f (\<lambda>n. n\<lparr>grief := 1\<rparr>) h7 = Some h'" by simp
        have "cascadedDetach h d = Some h'"
          by (subst cascadedDetach.simps) (simp add: d fn7 True g u)
        moreover have "P h d h'" by (rule mark[OF d fn7 True g u])
        ultimately show ?thesis by simp
      qed
    next
      case False
      with r have u: "moveDown f h7 = Some h'" by simp
      have "cascadedDetach h d = Some h'"
        using False by (subst cascadedDetach.simps) (simp add: d fn7 u)
      moreover have "P h d h'" using False by (intro root[OF d fn7 _ u]) simp
      ultimately show ?thesis by simp
    qed
  qed
  then show ?thesis by simp
qed

lemma dom_view: "dom (view F h) = dom (nodes h)"
  by (auto simp: view_def)

lemma view_Some: "view F h a = Some v \<longleftrightarrow> (\<exists>n. nodes h a = Some n \<and> F n = v)"
  by (auto simp: view_def)

lemma detachNode_frame:
  assumes "detachNode d h = Some (f, h')"
  shows "heap_min h' = heap_min h" "nodesCount h' = nodesCount h" "nextNode h' = nextNode h"
    "view key h' = view key h" "view elem h' = view elem h"
  using assms unfolding detachNode_def
  by (auto simp: updNode_frame addAsLast_frame view_updNode_same view_addAsLast
      split: bind_splits if_splits option.splits)

lemma moveDown_frame:
  assumes "moveDown f h = Some h'"
  shows "heap_min h' = heap_min h" "nodesCount h' = nodesCount h" "nextNode h' = nextNode h"
    "nodes h' = nodes h" "recs h' = recs h" "nextRec h' = nextRec h"
  using assms unfolding moveDown_def
  by (auto simp: popRecord_frame addAsLastRecord_frame split: bind_splits)

lemma view_moveDown: "moveDown f h = Some h' \<Longrightarrow> view F h' = view F h"
  by (rule view_eq_nodes[OF moveDown_frame(4)])

lemma cascadedDetach_frame:
  assumes "cascadedDetach h d = Some h'"
  shows "heap_min h' = heap_min h \<and> nodesCount h' = nodesCount h \<and> nextNode h' = nextNode h \<and>
    view key h' = view key h \<and> view elem h' = view elem h"
  using assms
  by (induction rule: cascadedDetach_induct)
     (simp_all add: detachNode_frame moveDown_frame updNode_frame view_updNode_same view_moveDown)

section \<open>Runs of the public operations, step by step\<close>

lemma view_updNode_at:
  "updNode a f h = Some h' \<Longrightarrow> nodes h a = Some n \<Longrightarrow> view F h' = (view F h)(a \<mapsto> F (f n))"
  by (auto simp: updNode_Some view_def fun_eq_iff)

lemma fhDecreaseKey_SomeE:
  assumes "fhDecreaseKey (Some h) (Some n) dec = Some (r, heap')"
  obtains h1 n1 h2 n2 h3 where
    "updNode n (\<lambda>x. x\<lparr>key := key x - dec\<rparr>) h = Some h1" "nodes h1 n = Some n1"
    "(case father n1 of None \<Rightarrow> Some h1
      | Some f \<Rightarrow> nodes h1 f \<bind> (\<lambda>fn. if key n1 < key fn then cascadedDetach h1 n else Some h1)) = Some h2"
    "nodes h2 n = Some n2"
    "(if father n2 = None then updateMin h2 (Some n) else Some h2) = Some h3"
    "r = Some n" "heap' = Some h3"
  using assms unfolding fhDecreaseKey_def
  by (simp add: bind_eq_Some_conv) blast

lemma fhDecreaseKey_key:
  assumes run: "fhDecreaseKey (Some h) (Some n) dec = Some (r, heap')"
    and n: "nodes h n = Some nn"
  shows "r = Some n \<and> (\<exists>h'. heap' = Some h' \<and> view key h' = (view key h)(n \<mapsto> key nn - dec))"
proof -
  from run obtain h1 n1 h2 n2 h3 where
    h1: "updNode n (\<lambda>x. x\<lparr>key := key x - dec\<rparr>) h = Some h1" and
    n1: "nodes h1 n = Some n1" and
    h2: "(case father n1 of None \<Rightarrow> Some h1
          | Some f \<Rightarrow> nodes h1 f \<bind> (\<lambda>fn. if key n1 < key fn then cascadedDetach h1 n else Some h1)) = Some h2" and
    n2: "nodes h2 n = Some n2" and
    h3: "(if father n2 = None then updateMin h2 (Some n) else Some h2) = Some h3" and
    res: "r = Some n" "heap' = Some h3"
    by (rule fhDecreaseKey_SomeE)
  have "view key h1 = (view key h)(n \<mapsto> key nn - dec)"
    using h1 n by (simp add: view_updNode_at)
  moreover have "view key h2 = view key h1"
    using h2 by (auto simp: cascadedDetach_frame split: option.splits bind_splits if_splits)
  moreover have "view key h3 = view key h2"
    using h3 by (auto simp: view_updateMin split: if_splits)
  ultimately show ?thesis using res by simp
qed








section \<open>An empty forest has no minimum\<close>

lemma isHeapEmpty_0: "isHeapEmpty (Some h) = 0 \<longleftrightarrow> (\<exists>l \<in> set (forest h). l \<noteq> [])"
  by (auto simp: isHeapEmpty_def list_all_iff isListEmpty_def)

















section \<open>Runs and reachable states\<close>

lemma step_reachable: "reachable h \<Longrightarrow> step h x = Some (r, h') \<Longrightarrow> reachable h'"
  by (cases x) (auto split: option.splits prod.splits intro: reachable.intros)

lemma exec_reachable: "reachable h \<Longrightarrow> exec h ops = Some h' \<Longrightarrow> reachable h'"
  by (induction ops arbitrary: h) (auto split: option.splits prod.splits dest: step_reachable)

lemma run_reachable: "run cap ops = Some h \<Longrightarrow> reachable h"
  unfolding run_def by (auto split: option.splits intro: exec_reachable r_create)

lemma the_run: "\<not> Option.is_none (run cap ops) \<Longrightarrow> run cap ops = Some (the (run cap ops))"
  by (cases "run cap ops") auto

section \<open>Heapsort (C1)\<close>

text \<open>
  C1. Heapsort property: inserting \<open>n\<close> keys into a fresh heap and calling \<^verbatim>\<open>fhDeleteMin\<close>
  \<open>n\<close> times returns the keys in non-decreasing order. The code does not do this for the keys
  5 and \<^verbatim>\<open>UINT64_MAX\<close>: the first \<^verbatim>\<open>fhDeleteMin\<close> returns the node with key 5 and rescans the
  roots with \<^verbatim>\<open>newMinKey = UINT64_MAX\<close> and a strict comparison, so the remaining root is not
  found: \<open>min\<close> is \<^verbatim>\<open>NULL\<close> on a heap that is not empty, \<^verbatim>\<open>fhFindMin\<close> answers as for an empty
  heap, and the second \<^verbatim>\<open>fhDeleteMin\<close> dereferences \<^verbatim>\<open>heap->min\<close> and has no result.
\<close>

theorem heapsort_max_key_no_result:
  "heapsort 1 [5, UINT64_MAX] = None \<and>
   map_option (\<lambda>h. (heap_min h, isHeapEmpty (Some h), fhFindMin (Some h),
                    Option.is_none (fhDeleteMin (Some h))))
     (run 1 [Insert 0 5, Insert 0 UINT64_MAX, DeleteMin]) = Some (None, 0, Some 0, True)"
  by code_simp

text \<open>On keys below \<^verbatim>\<open>UINT64_MAX\<close> the same run sorts, for instance:\<close>

lemma heapsort_small: "map_option fst (heapsort 1 [10, 3, 7, 1]) = Some [1, 3, 7, 10]"
  by code_simp

section \<open>The mark of a root (C4)\<close>

text \<open>
  C4. Mark invariant: in every reachable state no root carries the lost-a-child mark, also
  when the sons of a deleted minimum are promoted to roots. The code does not clear
  \<^verbatim>\<open>_grief\<close> in \<^verbatim>\<open>fhDeleteMin\<close>: after inserting the keys 0 to 4, deleting the minimum,
  decreasing the key of node 3 by 3 (which marks its father, node 2), and deleting the
  minimum twice, node 2 is a root with \<^verbatim>\<open>_grief = 1\<close>.
\<close>

lemma mark_run_facts:
  defines "h \<equiv> the (run 1 [Insert 0 0, Insert 0 1, Insert 0 2, Insert 0 3, Insert 0 4,
       DeleteMin, DecreaseKey 3 3, DeleteMin, DeleteMin])"
  shows "reachable h" and "is_root h 2" and "map_option grief (nodes h 2) = Some 1"
proof -
  let ?ops = "[Insert 0 0, Insert 0 1, Insert 0 2, Insert 0 3, Insert 0 4,
       DeleteMin, DecreaseKey 3 3, DeleteMin, DeleteMin]"
  have "\<not> Option.is_none (run 1 ?ops)" by code_simp
  then show "reachable h" unfolding h_def by (rule run_reachable[OF the_run])
  have f: "6 \<in> set (concat (forest h))" unfolding h_def by code_simp
  have t: "recs h 6 = Some (FibTree 2)" unfolding h_def by code_simp
  from f t show "is_root h 2" unfolding is_root_def by blast
  show "map_option grief (nodes h 2) = Some 1" unfolding h_def by code_simp
qed

lemma mark_run_not_unmarked:
  "\<not> roots_unmarked (the (run 1 [Insert 0 0, Insert 0 1, Insert 0 2, Insert 0 3, Insert 0 4,
       DeleteMin, DecreaseKey 3 3, DeleteMin, DeleteMin]))"
  using mark_run_facts(2,3) unfolding roots_unmarked_def by auto

theorem promoted_son_keeps_mark:
  "reachable (the (run 1 [Insert 0 0, Insert 0 1, Insert 0 2, Insert 0 3, Insert 0 4,
       DeleteMin, DecreaseKey 3 3, DeleteMin, DeleteMin])) \<and>
   is_root (the (run 1 [Insert 0 0, Insert 0 1, Insert 0 2, Insert 0 3, Insert 0 4,
       DeleteMin, DecreaseKey 3 3, DeleteMin, DeleteMin])) 2 \<and>
   map_option grief (nodes (the (run 1 [Insert 0 0, Insert 0 1, Insert 0 2, Insert 0 3,
       Insert 0 4, DeleteMin, DecreaseKey 3 3, DeleteMin, DeleteMin])) 2) = Some 1"
  using mark_run_facts by simp

section \<open>Null handles and empty heaps (C9)\<close>



section \<open>Live nodes\<close>

lemma closed_underD:
  assumes "closed_under h S"
  shows "r \<in> set (concat (forest h)) \<Longrightarrow> recs h r = Some t \<Longrightarrow> root t \<in> set S"
    and "p \<in> set S \<Longrightarrow> nodes h p = Some pn \<Longrightarrow> firstSon pn = Some c \<Longrightarrow> c \<in> set S"
    and "p \<in> set S \<Longrightarrow> nodes h p = Some pn \<Longrightarrow> nextBro pn = Some c \<Longrightarrow> c \<in> set S"
proof -
  from assms have 1: "\<forall>r \<in> set (concat (forest h)).
         case recs h r of None \<Rightarrow> True | Some t \<Rightarrow> root t \<in> set S"
    and 2: "\<forall>p \<in> set S.
         case nodes h p of None \<Rightarrow> True
         | Some pn \<Rightarrow>
            (case firstSon pn of None \<Rightarrow> True | Some c \<Rightarrow> c \<in> set S) \<and>
            (case nextBro pn of None \<Rightarrow> True | Some c \<Rightarrow> c \<in> set S)"
    unfolding closed_under_def by blast+
  show "r \<in> set (concat (forest h)) \<Longrightarrow> recs h r = Some t \<Longrightarrow> root t \<in> set S"
    using bspec[OF 1, of r] by simp
  show "p \<in> set S \<Longrightarrow> nodes h p = Some pn \<Longrightarrow> firstSon pn = Some c \<Longrightarrow> c \<in> set S"
    using bspec[OF 2, of p] by simp
  show "p \<in> set S \<Longrightarrow> nodes h p = Some pn \<Longrightarrow> nextBro pn = Some c \<Longrightarrow> c \<in> set S"
    using bspec[OF 2, of p] by simp
qed

lemma live_closed: "live h x \<Longrightarrow> closed_under h S \<Longrightarrow> x \<in> set S"
proof (induction rule: live.induct)
  case (live_root x)
  then obtain r where "r \<in> set (concat (forest h))" "recs h r = Some (FibTree x)"
    unfolding is_root_def by blast
  from closed_underD(1)[OF live_root(2) this] show ?case by simp
next
  case (live_son p pn c)
  then have "p \<in> set S" by simp
  from closed_underD(2)[OF live_son(5) this live_son(2,3)] show ?case .
next
  case (live_bro c cn d)
  then have "c \<in> set S" by simp
  from closed_underD(3)[OF live_bro(5) this live_bro(2,3)] show ?case .
qed

lemma heap_order_onD:
  assumes "closed_under h S" "heap_order_on h S"
  shows "heap_order h"
  unfolding heap_order_def
proof (intro allI impI, elim conjE)
  fix c cn p
  assume "live h c" and c: "nodes h c = Some cn" "father cn = Some p"
  then have "c \<in> set S" using assms(1) by (auto dest: live_closed)
  with assms(2) have "case nodes h c of None \<Rightarrow> True
        | Some cn \<Rightarrow>
           (case father cn of None \<Rightarrow> True
            | Some p \<Rightarrow> (case nodes h p of None \<Rightarrow> False | Some pn \<Rightarrow> key pn \<le> key cn))"
    unfolding heap_order_on_def by (rule bspec)
  with c show "\<exists>pn. nodes h p = Some pn \<and> key pn \<le> key cn"
    by (simp split: option.splits)
qed

lemma min_correct_onD:
  assumes cl: "closed_under h S" and mc: "min_correct_on h S"
  shows "min_correct h"
  unfolding min_correct_def
proof (intro conjI allI impI)
  show "(heap_min h = None) = (isHeapEmpty (Some h) = 1)"
    using mc by (simp add: min_correct_on_def)
next
  fix m assume m: "heap_min h = Some m"
  with mc have "\<exists>r \<in> set (concat (forest h)). recs h r = Some (FibTree m)"
    by (simp add: min_correct_on_def)
  then show "live h m"
    by (intro live_root) (simp add: is_root_def)
  from mc m obtain mn where mn: "nodes h m = Some mn"
    and le: "\<forall>x \<in> set S. case nodes h x of None \<Rightarrow> True | Some xn \<Rightarrow> key mn \<le> key xn"
    by (auto simp: min_correct_on_def split: option.splits)
  have "key mn \<le> key xn" if "live h x" "nodes h x = Some xn" for x xn
  proof -
    from that(1) cl have "x \<in> set S" by (rule live_closed)
    with le have "case nodes h x of None \<Rightarrow> True | Some xn \<Rightarrow> key mn \<le> key xn"
      by (rule bspec)
    with that(2) show ?thesis by simp
  qed
  with mn show "\<exists>mn. nodes h m = Some mn \<and>
      (\<forall>x xn. live h x \<and> nodes h x = Some xn \<longrightarrow> key mn \<le> key xn)"
    by blast
qed

lemma live_nonempty: "live h x \<Longrightarrow> isHeapEmpty (Some h) = 0"
proof (induction rule: live.induct)
  case (live_root x)
  then obtain r where "r \<in> set (concat (forest h))" unfolding is_root_def by blast
  then obtain l where "l \<in> set (forest h)" "r \<in> set l" by auto
  then have "\<exists>l \<in> set (forest h). l \<noteq> []" by (intro bexI[of _ l]) auto
  then show ?case by (simp add: isHeapEmpty_0)
qed

lemma live_sonI: "live h p \<Longrightarrow> map_option firstSon (nodes h p) = Some (Some c) \<Longrightarrow> live h c"
  by (auto intro: live_son)

lemma live_broI: "live h p \<Longrightarrow> map_option nextBro (nodes h p) = Some (Some c) \<Longrightarrow> live h c"
  by (auto intro: live_bro)


section \<open>A heap of four nodes\<close>

text \<open>After inserting the keys 0 to 4 and deleting the minimum, the heap is one tree:
  node 1 has the sons 2 and 4, node 2 has the son 3.\<close>

lemma is_rootI: "r \<in> set (concat (forest h)) \<Longrightarrow> recs h r = Some (FibTree x) \<Longrightarrow> is_root h x"
  unfolding is_root_def by blast

lemma tree4_facts:
  defines "h \<equiv> the (run 1 [Insert 0 0, Insert 0 1, Insert 0 2, Insert 0 3, Insert 0 4, DeleteMin])"
  shows "heap_order h" and "min_correct h" and "live h 1" and "live h 2" and "live h 3"
    and "live h 4" and "reachable h"
proof -
  have cl: "closed_under h [1, 2, 3, 4]" unfolding h_def by code_simp
  have "heap_order_on h [1, 2, 3, 4]" unfolding h_def by code_simp
  with cl show "heap_order h" by (rule heap_order_onD)
  have "min_correct_on h [1, 2, 3, 4]" unfolding h_def by code_simp
  with cl show "min_correct h" by (rule min_correct_onD)
  have "1 \<in> set (concat (forest h))" "recs h 1 = Some (FibTree 1)"
    unfolding h_def by code_simp+
  then show l1: "live h 1" by (intro live_root is_rootI)
  have "map_option firstSon (nodes h 1) = Some (Some 2)" unfolding h_def by code_simp
  with l1 show l2: "live h 2" by (rule live_sonI)
  have "map_option firstSon (nodes h 2) = Some (Some 3)" unfolding h_def by code_simp
  with l2 show "live h 3" by (rule live_sonI)
  have "map_option nextBro (nodes h 2) = Some (Some 4)" unfolding h_def by code_simp
  with l2 show "live h 4" by (rule live_broI)
  have "\<not> Option.is_none (run 1 [Insert 0 0, Insert 0 1, Insert 0 2, Insert 0 3, Insert 0 4, DeleteMin])"
    by code_simp
  then show "reachable h" unfolding h_def by (rule run_reachable[OF the_run])
qed


section \<open>Decreasing a key by zero (C10)\<close>

lemma updNode_id: "nodes h n = Some nn \<Longrightarrow> f nn = nn \<Longrightarrow> updNode n f h = Some h"
  by (simp add: updNode_def fun_upd_idem)

text \<open>
  C10. Zero-decrease is the identity: in a heap that satisfies heap order and
  min-correctness, \<^verbatim>\<open>fhDecreaseKey(heap, node, 0)\<close> on a live node returns the node and leaves
  the whole state as it was: no cut, no new minimum.
\<close>

theorem decrease_by_zero_is_identity:
  assumes ho: "heap_order h" and mc: "min_correct h" and l: "live h n"
    and n: "nodes h n = Some nn"
  shows "fhDecreaseKey (Some h) (Some n) 0 = Some (Some n, Some h)"
proof -
  have u: "updNode n (\<lambda>x. x) h = Some h"
    using n by (intro updNode_id) simp_all
  have cut: "(case father nn of None \<Rightarrow> Some h
       | Some f \<Rightarrow> nodes h f \<bind> (\<lambda>fn. if key nn < key fn then cascadedDetach h n else Some h))
     = Some h"
  proof (cases "father nn")
    case None
    then show ?thesis by simp
  next
    case (Some f)
    with ho l n obtain fn where "nodes h f = Some fn" "key fn \<le> key nn"
      unfolding heap_order_def by blast
    with Some show ?thesis by (auto dest: leD)
  qed
  have upd: "updateMin h (Some n) = Some h"
  proof -
    from l have ne: "isHeapEmpty (Some h) = 0" by (rule live_nonempty)
    with mc obtain m where m: "heap_min h = Some m"
      unfolding min_correct_def by (cases "heap_min h") auto
    with mc l n obtain mn where "nodes h m = Some mn" "key mn \<le> key nn"
      unfolding min_correct_def by blast
    with ne m n show ?thesis by (auto simp: updateMin_def dest: leD)
  qed
  show ?thesis
    unfolding fhDecreaseKey_def by (simp add: u n cut upd)
qed

theorem decrease_by_zero_is_identity_witness:
  "heap_order (the (run 1 [Insert 0 0, Insert 0 1, Insert 0 2, Insert 0 3, Insert 0 4, DeleteMin])) \<and>
   min_correct (the (run 1 [Insert 0 0, Insert 0 1, Insert 0 2, Insert 0 3, Insert 0 4, DeleteMin])) \<and>
   live (the (run 1 [Insert 0 0, Insert 0 1, Insert 0 2, Insert 0 3, Insert 0 4, DeleteMin])) 3 \<and>
   fhDecreaseKey (Some (the (run 1 [Insert 0 0, Insert 0 1, Insert 0 2, Insert 0 3, Insert 0 4,
       DeleteMin]))) (Some 3) 0
   = Some (Some 3, Some (the (run 1 [Insert 0 0, Insert 0 1, Insert 0 2, Insert 0 3, Insert 0 4,
       DeleteMin])))"
proof -
  let ?h = "the (run 1 [Insert 0 0, Insert 0 1, Insert 0 2, Insert 0 3, Insert 0 4, DeleteMin])"
  have "\<not> Option.is_none (nodes ?h 3)" by code_simp
  then obtain nn where nn: "nodes ?h 3 = Some nn" by (cases "nodes ?h 3") auto
  from decrease_by_zero_is_identity[OF tree4_facts(1,2,5) nn] tree4_facts(1,2,5)
  show ?thesis by simp
qed

section \<open>Well-formed heaps and the cascading cut\<close>

lemma chain_frame:
  "(\<And>k. k \<in> set ks \<Longrightarrow> nb' k = nb k \<and> pb' k = pb k) \<Longrightarrow>
   chain nb' pb' prev x ks = chain nb pb prev x ks"
  by (induction ks arbitrary: prev x) auto

lemma chain_None: "chain nb pb prev None ks \<longleftrightarrow> ks = []"
  by (cases ks) auto

lemma chain_Some: "chain nb pb prev (Some c) ks \<Longrightarrow> \<exists>ks'. ks = c # ks'"
  by (cases ks) auto

lemma chain_next_mem:
  "chain nb pb prev x ks \<Longrightarrow> c \<in> set ks \<Longrightarrow> nb c = Some (Some d) \<Longrightarrow> d \<in> set ks"
proof (induction ks arbitrary: prev x)
  case Nil
  then show ?case by simp
next
  case (Cons k ks)
  from Cons.prems(1) obtain y where y: "nb k = Some y" "chain nb pb (Some k) y ks" by auto
  show ?case
  proof (cases "c = k")
    case True
    with y Cons.prems(3) have "chain nb pb (Some k) (Some d) ks" by simp
    then show ?thesis by (auto dest: chain_Some)
  next
    case False
    with Cons.prems(2) have "c \<in> set ks" by simp
    from Cons.IH[OF y(2) this Cons.prems(3)] show ?thesis by simp
  qed
qed

lemma chain_prev_mem:
  "chain nb pb prev x ks \<Longrightarrow> d \<in> set ks \<Longrightarrow> x \<noteq> Some d \<Longrightarrow>
   \<exists>c \<in> set ks. pb d = Some (Some c)"
proof (induction ks arbitrary: prev x)
  case Nil
  then show ?case by simp
next
  case (Cons k ks)
  from Cons.prems(1) obtain y where x: "x = Some k"
    and y: "nb k = Some y" "chain nb pb (Some k) y ks" by auto
  from Cons.prems(2,3) x have dks: "d \<in> set ks" by auto
  show ?case
  proof (cases "y = Some d")
    case True
    with y(2) obtain ks' where "ks = d # ks'" by (auto dest: chain_Some)
    with y(2) True show ?thesis by simp
  next
    case False
    from Cons.IH[OF y(2) dks False] show ?thesis by auto
  qed
qed

lemma chain_remove:
  assumes "chain nb pb prev x ks" "distinct ks" "d \<in> set ks"
    and "nb d = Some nxd" "pb d = Some pbd"
    and "\<And>p. prev = Some p \<Longrightarrow> p \<notin> set ks"
  shows "chain ((case pbd of None \<Rightarrow> nb | Some p \<Rightarrow> nb(p \<mapsto> nxd))(d \<mapsto> None))
               ((case nxd of None \<Rightarrow> pb | Some q \<Rightarrow> pb(q \<mapsto> pbd))(d \<mapsto> None))
               prev (if x = Some d then nxd else x) (remove1 d ks)"
  using assms
proof (induction ks arbitrary: prev x)
  case Nil
  then show ?case by simp
next
  case (Cons k ks)
  let ?nb = "(case pbd of None \<Rightarrow> nb | Some p \<Rightarrow> nb(p \<mapsto> nxd))(d \<mapsto> None)"
  let ?pb = "(case nxd of None \<Rightarrow> pb | Some q \<Rightarrow> pb(q \<mapsto> pbd))(d \<mapsto> None)"
  from Cons.prems(1) obtain y where x: "x = Some k" and pk: "pb k = Some prev"
    and y: "nb k = Some y" "chain nb pb (Some k) y ks" by auto
  from Cons.prems(2) have dk: "k \<notin> set ks" "distinct ks" by auto
  show ?case
  proof (cases "d = k")
    case True
    with y Cons.prems(4) pk Cons.prems(5) have nxd: "nxd = y" and pbd: "pbd = prev" by auto
    have fr: "chain ?nb ?pb prev nxd ks"
    proof (cases ks)
      case Nil
      with y nxd show ?thesis by simp
    next
      case (Cons q ks')
      with y obtain z where q: "y = Some q" "pb q = Some (Some k)" "nb q = Some z"
        "chain nb pb (Some q) z ks'" by auto
      have qd: "q \<noteq> d" using True dk Cons by auto
      have pq: "prev \<noteq> Some q" using Cons.prems(6)[of q] Cons by auto
      have "chain ?nb ?pb (Some q) z ks' = chain nb pb (Some q) z ks'"
      proof (rule chain_frame)
        fix j assume j: "j \<in> set ks'"
        then have "j \<noteq> d" "j \<noteq> q" using True dk Cons by auto
        moreover have "prev \<noteq> Some j" using Cons.prems(6)[of j] j Cons by auto
        ultimately show "?nb j = nb j \<and> ?pb j = pb j"
          using nxd pbd q(1) by (auto split: option.splits)
      qed
      with q(4) have "chain ?nb ?pb (Some q) z ks'" by simp
      moreover have "?pb q = Some prev" using qd nxd q(1) pbd by simp
      moreover have "?nb q = Some z" using qd pq pbd q(3) by (auto split: option.splits)
      ultimately show ?thesis using Cons nxd q(1) by simp
    qed
    have "remove1 d (k # ks) = ks" using True by simp
    moreover have "(if x = Some d then nxd else x) = nxd" using True x by simp
    ultimately show ?thesis using fr by (simp only:)
  next
    case False
    with Cons.prems(3) have dks: "d \<in> set ks" by simp
    have "chain ?nb ?pb (Some k) (if y = Some d then nxd else y) (remove1 d ks)"
      using dk by (intro Cons.IH[OF y(2) dk(2) dks Cons.prems(4,5)]) simp
    moreover have "?pb k = Some prev"
    proof -
      have "nxd \<noteq> Some k"
        using chain_next_mem[OF y(2) dks, of k] Cons.prems(4) dk by auto
      with pk False show ?thesis by (auto split: option.splits)
    qed
    moreover have "?nb k = Some (if y = Some d then nxd else y)"
    proof (cases "y = Some d")
      case True
      with y(2) obtain ks' where "ks = d # ks'" by (auto dest: chain_Some)
      with y(2) True Cons.prems(5) have "pbd = Some k" by simp
      with True False show ?thesis by simp
    next
      case yd: False
      have "pbd \<noteq> Some k"
        using chain_prev_mem[OF y(2) dks yd] Cons.prems(5) dk(1) by auto
      with y False yd show ?thesis by (auto split: option.splits)
    qed
    moreover have "remove1 d (k # ks) = k # remove1 d ks" using False by simp
    moreover have "(if x = Some d then nxd else x) = Some k" using x False by simp
    ultimately show ?thesis by (simp only: chain.simps) blast
  qed
qed

lemma wf_treeD:
  assumes "wf_tree X Y h K"
  shows "view father h c = Some (Some p) \<longleftrightarrow> c \<in> set (K p)"
    and "distinct (K p)"
    and "p \<notin> X \<Longrightarrow> view firstSon h p = Some y \<Longrightarrow>
           chain (view nextBro h) (view prevBro h) None y (K p)"
    and "p \<notin> X \<Longrightarrow> view sonsCnt h p = Some s \<Longrightarrow> unat s = length (K p)"
    and "nodes h p = None \<Longrightarrow> K p = []"
    and "x \<notin> Y \<Longrightarrow> view father h x = Some None \<Longrightarrow>
           view nextBro h x = Some None \<and> view prevBro h x = Some None"
    and "acyclic (edges h)"
    and "x \<in> X \<Longrightarrow> view father h x = Some None \<and> K x = []"
    and "nodes h a \<noteq> None \<Longrightarrow> a < nextNode h"
  using assms unfolding wf_tree_def by blast+

lemma view_None: "view F h a = None \<longleftrightarrow> nodes h a = None"
  by (simp add: view_def)

lemma view_dom_eq: "view F h' = g \<Longrightarrow> dom g = dom (nodes h')"
  using dom_view[of F h'] by simp

lemma nodes_None_cong:
  assumes "view F h' = (view F h)(d \<mapsto> v)" "nodes h d \<noteq> None"
  shows "nodes h' a = None \<longleftrightarrow> nodes h a = None"
proof -
  have "view F h' a = None \<longleftrightarrow> view F h a = None"
    using assms by (auto simp: view_None)
  then show ?thesis by (simp add: view_None)
qed

text \<open>A son leaves its father and its brothers.\<close>

lemma wf_tree_cut:
  assumes wf: "wf_tree X Y h K"
    and d: "view father h d = Some (Some f)" "view nextBro h d = Some nxd"
      "view prevBro h d = Some pbd"
    and s: "view sonsCnt h f = Some s"
    and fa': "view father h' = (view father h)(d \<mapsto> None)"
    and nb': "view nextBro h' =
        (case pbd of None \<Rightarrow> view nextBro h | Some p \<Rightarrow> (view nextBro h)(p \<mapsto> nxd))(d \<mapsto> None)"
    and pb': "view prevBro h' =
        (case nxd of None \<Rightarrow> view prevBro h | Some q \<Rightarrow> (view prevBro h)(q \<mapsto> pbd))(d \<mapsto> None)"
    and fs': "view firstSon h' =
        (if view firstSon h f = Some (Some d) then (view firstSon h)(f \<mapsto> nxd)
         else view firstSon h)"
    and sc': "view sonsCnt h' = (view sonsCnt h)(f \<mapsto> s - 1)"
    and nn: "nextNode h' = nextNode h"
  shows "wf_tree X Y h' (K(f := remove1 d (K f)))"
proof -
  note D = wf_treeD[OF wf]
  let ?K = "K(f := remove1 d (K f))"
  let ?nb = "view nextBro h" and ?pb = "view prevBro h"
  have dKf: "d \<in> set (K f)" using D(1) d(1) by simp
  have dall: "nodes h d \<noteq> None" using d(1) by (auto simp: view_Some)
  have dom: "\<And>a. nodes h' a = None \<longleftrightarrow> nodes h a = None"
    by (rule nodes_None_cong[OF fa' dall])
  have fX: "f \<notin> X" using D(8)[of f] dKf by auto
  have fall: "nodes h f \<noteq> None"
  proof
    assume "nodes h f = None"
    from D(5)[OF this] dKf show False by simp
  qed
  then obtain y0 where y0: "view firstSon h f = Some y0" by (auto simp: view_def)
  have ch: "chain ?nb ?pb None y0 (K f)" by (rule D(3)[OF fX y0])
  have other: "\<And>p k. p \<noteq> f \<Longrightarrow> k \<in> set (K p) \<Longrightarrow> k \<notin> set (K f)"
    using D(1) by (metis option.inject)
  have pbd_mem: "\<And>p. pbd = Some p \<Longrightarrow> p \<in> set (K f)"
  proof -
    fix p assume p: "pbd = Some p"
    have "y0 \<noteq> Some d"
    proof
      assume "y0 = Some d"
      with ch obtain ks where "K f = d # ks" by (auto dest: chain_Some)
      with ch d(3) p show False by simp
    qed
    from chain_prev_mem[OF ch dKf this] d(3) p show "p \<in> set (K f)" by simp
  qed
  have nxd_mem: "\<And>q. nxd = Some q \<Longrightarrow> q \<in> set (K f)"
    using chain_next_mem[OF ch dKf] d(2) by simp
  have frame: "\<And>k. k \<notin> set (K f) \<Longrightarrow> view nextBro h' k = ?nb k \<and> view prevBro h' k = ?pb k"
    using dKf pbd_mem nxd_mem unfolding nb' pb' by (auto split: option.splits)
  show ?thesis
    unfolding wf_tree_def
  proof (intro conjI allI impI ballI)
    fix c p
    show "view father h' c = Some (Some p) \<longleftrightarrow> c \<in> set (?K p)"
    proof (cases "c = d")
      case True
      have "d \<notin> set (?K p)"
        using D(2)[of f] other[of p d] dKf by (cases "p = f") auto
      with True show ?thesis by (simp add: fa')
    next
      case False
      then have "c \<in> set (?K p) \<longleftrightarrow> c \<in> set (K p)" by auto
      with False D(1)[of c p] show ?thesis by (simp add: fa')
    qed
  next
    fix p show "distinct (?K p)" using D(2) by (simp add: distinct_remove1)
  next
    fix p y assume p: "p \<notin> X" "view firstSon h' p = Some y"
    show "chain (view nextBro h') (view prevBro h') None y (?K p)"
    proof (cases "p = f")
      case True
      have y: "y = (if y0 = Some d then nxd else y0)"
        using p(2) y0 True by (auto simp: fs' split: if_splits)
      have "chain (view nextBro h') (view prevBro h') None
              (if y0 = Some d then nxd else y0) (remove1 d (K f))"
        unfolding nb' pb'
        by (rule chain_remove[OF ch D(2) dKf d(2,3)]) simp
      with True y show ?thesis by simp
    next
      case False
      then have "view firstSon h p = Some y" using p(2) by (auto simp: fs' split: if_splits)
      from D(3)[OF p(1) this] have "chain ?nb ?pb None y (K p)" .
      moreover have "chain (view nextBro h') (view prevBro h') None y (K p)
                   = chain ?nb ?pb None y (K p)"
        by (rule chain_frame) (use frame other[OF False] in blast)
      ultimately show ?thesis using False by simp
    qed
  next
    fix p s' assume p: "p \<notin> X" "view sonsCnt h' p = Some s'"
    show "unat s' = length (?K p)"
    proof (cases "p = f")
      case True
      then have s': "s' = s - 1" using p(2) by (simp add: sc')
      have l: "unat s = length (K f)" by (rule D(4)[OF fX s])
      have "0 < length (K f)" using dKf by (cases "K f") auto
      with l have "s \<noteq> 0" by (auto simp: unat_eq_0)
      then have "unat (s - 1) = unat s - 1" by (simp add: unat_minus_one)
      with True s' l dKf show ?thesis by (simp add: length_remove1)
    next
      case False
      then show ?thesis using p D(4)[of p s'] by (simp add: sc')
    qed
  next
    fix p assume "nodes h' p = None"
    then have n: "nodes h p = None" by (simp add: dom)
    then have "p \<noteq> f" using fall by auto
    with D(5)[OF n] show "?K p = []" by simp
  next
    fix x assume x: "x \<notin> Y" "view father h' x = Some None"
    show "view nextBro h' x = Some None"  "view prevBro h' x = Some None"
    proof -
      show "view nextBro h' x = Some None"
      proof (cases "x = d")
        case True then show ?thesis by (simp add: nb')
      next
        case False
        with x(2) have fx: "view father h x = Some None" by (simp add: fa')
        then have "x \<notin> set (K f)" using D(1)[of x f] by simp
        with frame[OF this] D(6)[OF x(1) fx] show ?thesis by simp
      qed
      show "view prevBro h' x = Some None"
      proof (cases "x = d")
        case True then show ?thesis by (simp add: pb')
      next
        case False
        with x(2) have fx: "view father h x = Some None" by (simp add: fa')
        then have "x \<notin> set (K f)" using D(1)[of x f] by simp
        with frame[OF this] D(6)[OF x(1) fx] show ?thesis by simp
      qed
    qed
  next
    have "edges h' \<subseteq> edges h" unfolding edges_def fa' by (auto split: if_splits)
    with D(7) show "acyclic (edges h')" by (rule acyclic_subset)
  next
    fix x assume x: "x \<in> X"
    from D(8)[OF x] show "view father h' x = Some None" by (simp add: fa')
    from D(8)[OF x] fX x show "?K x = []" by auto
  next
    fix a assume "nodes h' a \<noteq> None"
    then show "a < nextNode h'" using D(9)[of a] by (simp add: dom nn)
  qed
qed

lemma wf_tree_cong:
  assumes "wf_tree X Y h K"
    and "view father h' = view father h" "view firstSon h' = view firstSon h"
      "view nextBro h' = view nextBro h" "view prevBro h' = view prevBro h"
      "view sonsCnt h' = view sonsCnt h" "nextNode h' = nextNode h"
  shows "wf_tree X Y h' K"
proof -
  have "\<And>a. nodes h' a = None \<longleftrightarrow> nodes h a = None"
    using assms(2) by (metis view_None)
  moreover have "edges h' = edges h" by (simp add: edges_def assms(2))
  ultimately show ?thesis using assms unfolding wf_tree_def by simp
qed

lemma no_edge_from_root:
  assumes "view father h x = Some None" "(x, z) \<in> (edges h)\<^sup>*"
  shows "z = x"
  using assms(2,1) by (induction rule: converse_rtrancl_induct) (auto simp: edges_def)

text \<open>A root becomes the first son of another root.\<close>

lemma wf_tree_makeSon:
  assumes wf: "wf_tree X Y h K"
    and son: "view father h son = Some None" "son \<notin> X"
    and dad: "view father h dad = Some None" "dad \<notin> X" "son \<noteq> dad"
      "view firstSon h dad = Some y0" "view sonsCnt h dad = Some s" "unat s + 1 < 2 ^ 64"
    and fa': "view father h' = (view father h)(son \<mapsto> Some dad)"
    and nb': "view nextBro h' = (view nextBro h)(son \<mapsto> y0)"
    and pb': "view prevBro h' =
        (case y0 of None \<Rightarrow> (view prevBro h)(son \<mapsto> None)
         | Some f0 \<Rightarrow> (view prevBro h)(son \<mapsto> None, f0 \<mapsto> Some son))"
    and fs': "view firstSon h' = (view firstSon h)(dad \<mapsto> Some son)"
    and sc': "view sonsCnt h' = (view sonsCnt h)(dad \<mapsto> s + 1)"
    and nn: "nextNode h' = nextNode h"
  shows "wf_tree X Y h' (K(dad := son # K dad))"
proof -
  note D = wf_treeD[OF wf]
  let ?K = "K(dad := son # K dad)"
  let ?nb = "view nextBro h" and ?pb = "view prevBro h"
  have sall: "nodes h son \<noteq> None" using son(1) by (auto simp: view_Some)
  have dom: "\<And>a. nodes h' a = None \<longleftrightarrow> nodes h a = None"
    by (rule nodes_None_cong[OF fa' sall])
  have nofather: "\<And>p. son \<notin> set (K p)" "\<And>p. dad \<notin> set (K p)"
    using D(1) son(1) dad(1) by (metis option.inject option.simps(3))+
  have ch: "chain ?nb ?pb None y0 (K dad)" by (rule D(3)[OF dad(2,4)])
  have f0: "\<And>f0. y0 = Some f0 \<Longrightarrow> f0 \<in> set (K dad)"
    using ch by (auto dest: chain_Some)
  have f0s: "y0 \<noteq> Some son" using f0 nofather by auto
  have frame: "\<And>k. k \<noteq> son \<Longrightarrow> k \<notin> set (K dad) \<Longrightarrow>
      view nextBro h' k = ?nb k \<and> view prevBro h' k = ?pb k"
    using f0 unfolding nb' pb' by (auto split: option.splits)
  have other: "\<And>p k. p \<noteq> dad \<Longrightarrow> k \<in> set (K p) \<Longrightarrow> k \<notin> set (K dad)"
    using D(1) by (metis option.inject)
  show ?thesis
    unfolding wf_tree_def
  proof (intro conjI allI impI ballI)
    fix c p
    show "view father h' c = Some (Some p) \<longleftrightarrow> c \<in> set (?K p)"
    proof (cases "c = son")
      case True
      then show ?thesis using nofather(1) by (auto simp: fa')
    next
      case False
      then show ?thesis using D(1)[of c p] by (auto simp: fa')
    qed
  next
    fix p show "distinct (?K p)" using D(2) nofather(1) by simp
  next
    fix p y assume p: "p \<notin> X" "view firstSon h' p = Some y"
    show "chain (view nextBro h') (view prevBro h') None y (?K p)"
    proof (cases "p = dad")
      case True
      then have y: "y = Some son" using p(2) by (simp add: fs')
      have tl: "chain (view nextBro h') (view prevBro h') (Some son) y0 (K dad)"
      proof (cases "K dad")
        case Nil
        with ch show ?thesis by simp
      next
        case (Cons k ks)
        with ch obtain z where k: "y0 = Some k" "?nb k = Some z" "chain ?nb ?pb (Some k) z ks"
          by auto
        have ks: "k \<noteq> son" using f0s k(1) by simp
        have kks: "k \<notin> set ks" using D(2)[of dad] Cons by simp
        have "chain (view nextBro h') (view prevBro h') (Some k) z ks
              = chain ?nb ?pb (Some k) z ks"
        proof (rule chain_frame)
          fix j assume j: "j \<in> set ks"
          then have "j \<noteq> son" "j \<noteq> k" using nofather(1)[of dad] Cons kks by auto
          then show "view nextBro h' j = ?nb j \<and> view prevBro h' j = ?pb j"
            unfolding nb' pb' using k(1) by simp
        qed
        with k(3) have "chain (view nextBro h') (view prevBro h') (Some k) z ks" by simp
        moreover have "view prevBro h' k = Some (Some son)" unfolding pb' using k(1) by simp
        moreover have "view nextBro h' k = Some z" unfolding nb' using ks k(2) by simp
        ultimately show ?thesis using Cons k(1) by simp
      qed
      have "view prevBro h' son = Some None" unfolding pb' using f0s
        by (auto split: option.splits)
      moreover have "view nextBro h' son = Some y0" unfolding nb' by simp
      ultimately show ?thesis using tl True y by simp
    next
      case False
      then have "view firstSon h p = Some y" using p(2) by (simp add: fs')
      from D(3)[OF p(1) this] have "chain ?nb ?pb None y (K p)" .
      moreover have "chain (view nextBro h') (view prevBro h') None y (K p)
                   = chain ?nb ?pb None y (K p)"
      proof (rule chain_frame)
        fix k assume k: "k \<in> set (K p)"
        have "k \<noteq> son" using nofather(1)[of p] k by auto
        then show "view nextBro h' k = ?nb k \<and> view prevBro h' k = ?pb k"
          using other[OF False k] by (rule frame)
      qed
      ultimately show ?thesis using False by simp
    qed
  next
    fix p s' assume p: "p \<notin> X" "view sonsCnt h' p = Some s'"
    show "unat s' = length (?K p)"
    proof (cases "p = dad")
      case True
      then have s': "s' = s + 1" using p(2) by (simp add: sc')
      have l: "unat s = length (K dad)" by (rule D(4)[OF dad(2,5)])
      have "unat (s + 1) = unat s + 1" using dad(6) by (simp add: unat_word_ariths)
      with True s' l show ?thesis by simp
    next
      case False
      then show ?thesis using p D(4)[of p s'] by (simp add: sc')
    qed
  next
    fix p assume "nodes h' p = None"
    then have n: "nodes h p = None" by (simp add: dom)
    then have "p \<noteq> dad" using dad(1) by (auto simp: view_Some)
    with D(5)[OF n] show "?K p = []" by simp
  next
    fix x assume x: "x \<notin> Y" "view father h' x = Some None"
    then have xs: "x \<noteq> son" by (auto simp: fa')
    with x(2) have fx: "view father h x = Some None" by (simp add: fa')
    then have "x \<notin> set (K dad)" using D(1)[of x dad] by simp
    with frame[OF xs this] D(6)[OF x(1) fx]
    show "view nextBro h' x = Some None"  "view prevBro h' x = Some None" by simp_all
  next
    have e: "edges h' = insert (son, dad) (edges h)"
      unfolding edges_def fa' using son(1) by (auto split: if_splits)
    have "(dad, son) \<notin> (edges h)\<^sup>*"
      using no_edge_from_root[OF dad(1), of son] dad(3) by auto
    with D(7) show "acyclic (edges h')" unfolding e by (simp add: acyclic_insert)
  next
    fix x assume x: "x \<in> X"
    then have "x \<noteq> son" "x \<noteq> dad" using son(2) dad(2) by auto
    with D(8)[OF x] show "view father h' x = Some None" "?K x = []" by (simp_all add: fa')
  next
    fix a assume "nodes h' a \<noteq> None"
    then show "a < nextNode h'" using D(9)[of a] by (simp add: dom nn)
  qed
qed

text \<open>A node without father forgets its brothers.\<close>

lemma wf_tree_file:
  assumes wf: "wf_tree X Y h K"
    and c: "view father h c = Some None"
    and fa': "view father h' = view father h"
    and nb': "view nextBro h' = (view nextBro h)(c \<mapsto> None)"
    and pb': "view prevBro h' = (view prevBro h)(c \<mapsto> None)"
    and fs': "view firstSon h' = view firstSon h"
    and sc': "view sonsCnt h' = view sonsCnt h"
    and nn: "nextNode h' = nextNode h"
  shows "wf_tree X (Y - {c}) h' K"
proof -
  note D = wf_treeD[OF wf]
  have dom: "\<And>a. nodes h' a = None \<longleftrightarrow> nodes h a = None"
    using fa' by (metis view_None)
  have nofather: "\<And>p. c \<notin> set (K p)"
    using D(1) c by (metis option.inject option.simps(3))
  have e: "edges h' = edges h" by (simp add: edges_def fa')
  show ?thesis
    unfolding wf_tree_def
  proof (intro conjI allI impI ballI)
    fix p y assume p: "p \<notin> X" "view firstSon h' p = Some y"
    then have "chain (view nextBro h) (view prevBro h) None y (K p)"
      using D(3)[of p y] by (simp add: fs')
    moreover have "chain (view nextBro h') (view prevBro h') None y (K p)
        = chain (view nextBro h) (view prevBro h) None y (K p)"
      by (rule chain_frame) (use nofather[of p] in \<open>auto simp: nb' pb'\<close>)
    ultimately show "chain (view nextBro h') (view prevBro h') None y (K p)" by simp
  next
    fix x assume x: "x \<notin> Y - {c}" "view father h' x = Some None"
    show "view nextBro h' x = Some None" "view prevBro h' x = Some None"
      using x D(6)[of x] by (auto simp: fa' nb' pb')
  qed (use D in \<open>simp_all add: fa' sc' e dom nn\<close>)
qed

text \<open>All the sons of a root lose their father.\<close>

lemma wf_tree_cutall:
  assumes wf: "wf_tree {} {} h K"
    and m: "view father h m = Some None"
    and fa': "view father h' = (\<lambda>a. if a \<in> set (K m) then Some None else view father h a)"
    and nb': "view nextBro h' = view nextBro h"
    and pb': "view prevBro h' = view prevBro h"
    and fs': "view firstSon h' = view firstSon h"
    and sc': "view sonsCnt h' = view sonsCnt h"
    and nn: "nextNode h' = nextNode h"
  shows "wf_tree {m} (set (K m)) h' (K(m := []))"
proof -
  note D = wf_treeD[OF wf]
  have dom: "\<And>a. nodes h' a = None \<longleftrightarrow> nodes h a = None"
  proof -
    fix a
    have "view father h' a = None \<longleftrightarrow> view father h a = None"
      using D(1)[of a m] by (auto simp: fa')
    then show "nodes h' a = None \<longleftrightarrow> nodes h a = None" by (simp add: view_None)
  qed
  have mm: "m \<notin> set (K m)" using D(1)[of m m] m by simp
  show ?thesis
    unfolding wf_tree_def
  proof (intro conjI allI impI ballI)
    fix c p
    show "view father h' c = Some (Some p) \<longleftrightarrow> c \<in> set ((K(m := [])) p)"
      using D(1)[of c p] D(1)[of c m] by (auto simp: fa')
  next
    fix p show "distinct ((K(m := [])) p)" using D(2) by simp
  next
    fix p y assume "p \<notin> {m}" "view firstSon h' p = Some y"
    then show "chain (view nextBro h') (view prevBro h') None y ((K(m := [])) p)"
      using D(3)[of p y] by (simp add: fs' nb' pb')
  next
    fix p s assume "p \<notin> {m}" "view sonsCnt h' p = Some s"
    then show "unat s = length ((K(m := [])) p)" using D(4)[of p s] by (simp add: sc')
  next
    fix p assume "nodes h' p = None"
    then show "(K(m := [])) p = []" using D(5)[of p] by (simp add: dom)
  next
    fix x assume x: "x \<notin> set (K m)" "view father h' x = Some None"
    then show "view nextBro h' x = Some None" "view prevBro h' x = Some None"
      using D(6)[of x] by (simp_all add: fa' nb' pb')
  next
    have "edges h' \<subseteq> edges h" unfolding edges_def fa' by (auto split: if_splits)
    with D(7) show "acyclic (edges h')" by (rule acyclic_subset)
  next
    fix x assume "x \<in> {m}"
    then show "view father h' x = Some None" "(K(m := [])) x = []"
      using m mm by (simp_all add: fa')
  next
    fix a assume "nodes h' a \<noteq> None"
    then show "a < nextNode h'" using D(9)[of a] by (simp add: dom nn)
  qed
qed

text \<open>The removed node is cleared.\<close>

lemma wf_tree_reset:
  assumes wf: "wf_tree X Y h K" and m: "m \<in> X"
    and fa': "view father h' = (view father h)(m \<mapsto> None)"
    and nb': "view nextBro h' = (view nextBro h)(m \<mapsto> None)"
    and pb': "view prevBro h' = (view prevBro h)(m \<mapsto> None)"
    and fs': "view firstSon h' = (view firstSon h)(m \<mapsto> None)"
    and sc': "view sonsCnt h' = (view sonsCnt h)(m \<mapsto> 0)"
    and nn: "nextNode h' = nextNode h"
  shows "wf_tree (X - {m}) Y h' K"
proof -
  note D = wf_treeD[OF wf]
  have mf: "view father h m = Some None" and Km: "K m = []" using D(8)[OF m] by auto
  have mall: "nodes h m \<noteq> None" using mf by (auto simp: view_Some)
  have dom: "\<And>a. nodes h' a = None \<longleftrightarrow> nodes h a = None"
    by (rule nodes_None_cong[OF fa' mall])
  have fa: "view father h' = view father h" using mf by (auto simp: fa')
  have nofather: "\<And>p. m \<notin> set (K p)"
    using D(1) mf by (metis option.inject option.simps(3))
  have e: "edges h' = edges h" by (simp add: edges_def fa)
  show ?thesis
    unfolding wf_tree_def
  proof (intro conjI allI impI ballI)
    fix p y assume p: "p \<notin> X - {m}" "view firstSon h' p = Some y"
    show "chain (view nextBro h') (view prevBro h') None y (K p)"
    proof (cases "p = m")
      case True
      with p(2) Km show ?thesis by (simp add: fs')
    next
      case False
      with p have "chain (view nextBro h) (view prevBro h) None y (K p)"
        using D(3)[of p y] by (simp add: fs')
      moreover have "chain (view nextBro h') (view prevBro h') None y (K p)
          = chain (view nextBro h) (view prevBro h) None y (K p)"
        by (rule chain_frame) (use nofather[of p] in \<open>auto simp: nb' pb'\<close>)
      ultimately show ?thesis by simp
    qed
  next
    fix p s assume p: "p \<notin> X - {m}" "view sonsCnt h' p = Some s"
    show "unat s = length (K p)"
    proof (cases "p = m")
      case True
      with p(2) Km show ?thesis by (simp add: sc')
    next
      case False
      with p show ?thesis using D(4)[of p s] by (simp add: sc')
    qed
  next
    fix x assume x: "x \<notin> Y" "view father h' x = Some None"
    show "view nextBro h' x = Some None" "view prevBro h' x = Some None"
      using x D(6)[of x] by (auto simp: fa nb' pb')
  next
    fix x assume "x \<in> X - {m}"
    then show "view father h' x = Some None" "K x = []" using D(8)[of x] by (simp_all add: fa)
  qed (use D in \<open>simp_all add: fa e dom nn\<close>)
qed

text \<open>A node is allocated.\<close>

lemma wf_tree_new:
  assumes wf: "wf_tree X Y h K" and a: "a = nextNode h"
    and fa': "view father h' = (view father h)(a \<mapsto> None)"
    and nb': "view nextBro h' = (view nextBro h)(a \<mapsto> None)"
    and pb': "view prevBro h' = (view prevBro h)(a \<mapsto> None)"
    and fs': "view firstSon h' = (view firstSon h)(a \<mapsto> None)"
    and sc': "view sonsCnt h' = (view sonsCnt h)(a \<mapsto> 0)"
    and nn: "nextNode h' = Suc (nextNode h)"
  shows "wf_tree X Y h' K"
proof -
  note D = wf_treeD[OF wf]
  have an: "nodes h a = None"
  proof (rule ccontr)
    assume "nodes h a \<noteq> None"
    from D(9)[OF this] a show False by simp
  qed
  then have va: "\<And>F. view F h a = None" by (simp add: view_None)
  have Ka: "K a = []" by (rule D(5)[OF an])
  have dom: "\<And>b. nodes h' b = None \<longleftrightarrow> b \<noteq> a \<and> nodes h b = None"
  proof -
    fix b
    have "view father h' b = None \<longleftrightarrow> b \<noteq> a \<and> view father h b = None" by (simp add: fa')
    then show "nodes h' b = None \<longleftrightarrow> b \<noteq> a \<and> nodes h b = None" by (simp add: view_None)
  qed
  have nofather: "\<And>p. a \<notin> set (K p)" using D(1)[of a] va[of father] by simp
  have e: "edges h' = edges h" unfolding edges_def fa' using va[of father] by (auto split: if_splits)
  have aX: "a \<notin> X" using D(8)[of a] va[of father] by auto
  show ?thesis
    unfolding wf_tree_def
  proof (intro conjI allI impI ballI)
    fix c p
    show "view father h' c = Some (Some p) \<longleftrightarrow> c \<in> set (K p)"
      using D(1)[of c p] nofather[of p] by (auto simp: fa')
  next
    fix p y assume p: "p \<notin> X" "view firstSon h' p = Some y"
    show "chain (view nextBro h') (view prevBro h') None y (K p)"
    proof (cases "p = a")
      case True
      with p(2) Ka show ?thesis by (simp add: fs')
    next
      case False
      with p have "chain (view nextBro h) (view prevBro h) None y (K p)"
        using D(3)[of p y] by (simp add: fs')
      moreover have "chain (view nextBro h') (view prevBro h') None y (K p)
          = chain (view nextBro h) (view prevBro h) None y (K p)"
        by (rule chain_frame) (use nofather[of p] in \<open>auto simp: nb' pb'\<close>)
      ultimately show ?thesis by simp
    qed
  next
    fix p s assume p: "p \<notin> X" "view sonsCnt h' p = Some s"
    show "unat s = length (K p)"
    proof (cases "p = a")
      case True
      with p(2) Ka show ?thesis by (simp add: sc')
    next
      case False
      with p show ?thesis using D(4)[of p s] by (simp add: sc')
    qed
  next
    fix p assume "nodes h' p = None"
    then show "K p = []" using D(5)[of p] by (simp add: dom)
  next
    fix x assume x: "x \<notin> Y" "view father h' x = Some None"
    show "view nextBro h' x = Some None" "view prevBro h' x = Some None"
      using x D(6)[of x] by (auto simp: fa' nb' pb' split: if_splits)
  next
    fix x assume x: "x \<in> X"
    then have "x \<noteq> a" using aX by auto
    then show "view father h' x = Some None" "K x = []" using D(8)[OF x] by (simp_all add: fa')
  next
    fix b assume "nodes h' b \<noteq> None"
    then show "b < nextNode h'" using D(9)[of b] a by (auto simp: dom nn)
  qed (use D in \<open>simp_all add: e\<close>)
qed

lemma wf_forestD:
  assumes "wf_forest X Y D h"
  shows "i < length (forest h) \<Longrightarrow> distinct (forest h ! i)"
    and "forest h \<noteq> []"
    and "length (forest h) < 2 ^ 64"
    and "i < length (forest h) \<Longrightarrow> r \<in> set (forest h ! i) \<Longrightarrow>
        \<exists>x s. x \<notin> X \<and> recs h r = Some (FibTree x) \<and>
               view posInForest h x = Some (Some r) \<and>
               view father h x = Some None \<and> view sonsCnt h x = Some s \<and>
               i = (if x \<in> D then unat s + 1 else unat s)"
    and "x \<notin> X \<Longrightarrow> view posInForest h x = Some (Some r) \<Longrightarrow>
        (\<exists>i < length (forest h). r \<in> set (forest h ! i)) \<and> recs h r = Some (FibTree x)"
    and "x \<notin> Y \<Longrightarrow> x \<notin> X \<Longrightarrow> view father h x = Some None \<Longrightarrow>
        view posInForest h x = Some None \<Longrightarrow> view firstSon h x = Some None"
    and "view sonsCnt h x = Some s \<Longrightarrow> unat s < length (forest h)"
    and "i < length (forest h) \<Longrightarrow> r \<in> set (forest h ! i) \<Longrightarrow> r < nextRec h"
    and "x \<in> X \<Longrightarrow> \<exists>r. view posInForest h x = Some (Some r)"
    and "x \<in> Y \<Longrightarrow> view father h x = Some None \<and> view posInForest h x = Some None"
  using assms unfolding wf_forest_def by blast+

text \<open>The record of a root lies in the list of its rank, and nowhere else.\<close>

lemma root_bucket:
  assumes wf: "wf_forest X Y D h" and x: "x \<notin> X" "view posInForest h x = Some (Some r)"
  obtains s where "view father h x = Some None" "view sonsCnt h x = Some s"
    "recs h r = Some (FibTree x)"
    "(if x \<in> D then unat s + 1 else unat s) < length (forest h)"
    "r \<in> set (forest h ! (if x \<in> D then unat s + 1 else unat s))"
    "\<And>j. j < length (forest h) \<Longrightarrow> r \<in> set (forest h ! j) \<Longrightarrow>
        j = (if x \<in> D then unat s + 1 else unat s)"
proof -
  note W = wf_forestD[OF wf]
  from W(5)[OF x] obtain i where i: "i < length (forest h)" "r \<in> set (forest h ! i)"
    and rx: "recs h r = Some (FibTree x)" by blast
  from W(4)[OF i] rx obtain s where s: "view father h x = Some None"
    "view sonsCnt h x = Some s" "i = (if x \<in> D then unat s + 1 else unat s)" by auto
  have "\<And>j. j < length (forest h) \<Longrightarrow> r \<in> set (forest h ! j) \<Longrightarrow>
        j = (if x \<in> D then unat s + 1 else unat s)"
  proof -
    fix j assume j: "j < length (forest h)" "r \<in> set (forest h ! j)"
    from W(4)[OF j] rx s(2) show "j = (if x \<in> D then unat s + 1 else unat s)" by auto
  qed
  with s i rx show ?thesis using that by blast
qed

lemma nonroot_pos:
  assumes wf: "wf_forest X Y D h" and x: "x \<notin> X" "view father h x = Some (Some p)"
  shows "view posInForest h x = Some None"
proof -
  from x(2) obtain v where v: "view posInForest h x = Some v" by (auto simp: view_def)
  show ?thesis
  proof (cases v)
    case None
    with v show ?thesis by simp
  next
    case (Some r)
    with v have "view posInForest h x = Some (Some r)" by simp
    from root_bucket[OF wf x(1) this] x(2) show ?thesis by auto
  qed
qed

lemma wf_forest_nonroot:
  assumes wf: "wf_forest X Y D h" and f: "view father h f = Some (Some p)"
  shows "wf_forest X Y (D - {f}) h"
proof -
  note W = wf_forestD[OF wf]
  show ?thesis unfolding wf_forest_def
  proof (intro conjI allI impI ballI)
    fix i r assume i: "i < length (forest h)" "r \<in> set (forest h ! i)"
    from W(4)[OF i] obtain x s where x: "x \<notin> X" "recs h r = Some (FibTree x)"
      "view posInForest h x = Some (Some r)" "view father h x = Some None"
      "view sonsCnt h x = Some s" "i = (if x \<in> D then unat s + 1 else unat s)" by blast
    from x(4) f have "x \<noteq> f" by auto
    with x show "\<exists>x s. x \<notin> X \<and> recs h r = Some (FibTree x) \<and>
               view posInForest h x = Some (Some r) \<and>
               view father h x = Some None \<and> view sonsCnt h x = Some s \<and>
               i = (if x \<in> D - {f} then unat s + 1 else unat s)" by auto
  qed (use W in blast)+
qed

text \<open>A node without father and without record gets a new record in the list of its rank.\<close>

lemma wf_forest_add:
  assumes wf: "wf_forest X Y D h"
    and c: "view father h c = Some None" "view posInForest h c = Some None"
      "view sonsCnt h c = Some s" "c \<notin> D"
    and forest': "forest h' = (forest h)[unat s := forest h ! unat s @ [nextRec h]]"
    and recs': "recs h' = (recs h)(nextRec h \<mapsto> FibTree c)"
    and nr: "nextRec h' = Suc (nextRec h)"
    and pos': "view posInForest h' = (view posInForest h)(c \<mapsto> Some (nextRec h))"
    and fa': "view father h' = view father h"
    and fs': "view firstSon h' = view firstSon h"
    and sc': "view sonsCnt h' = view sonsCnt h"
  shows "wf_forest X (Y - {c}) D h'"
proof -
  note W = wf_forestD[OF wf]
  let ?r = "nextRec h"
  have cX: "c \<notin> X" using W(9)[of c] c(2) by auto
  have s: "unat s < length (forest h)" by (rule W(7)[OF c(3)])
  have len: "length (forest h') = length (forest h)" by (simp add: forest')
  have fresh: "\<And>i. i < length (forest h) \<Longrightarrow> ?r \<notin> set (forest h ! i)"
    using W(8) by blast
  have mem: "\<And>i r. i < length (forest h) \<Longrightarrow>
      r \<in> set (forest h' ! i) \<longleftrightarrow> r \<in> set (forest h ! i) \<or> (i = unat s \<and> r = ?r)"
    using s by (auto simp: forest' nth_list_update split: if_splits)
  show ?thesis unfolding wf_forest_def len
  proof (intro conjI allI impI ballI)
    fix i assume i: "i < length (forest h)"
    show "distinct (forest h' ! i)"
      using W(1)[OF i] fresh[OF i] i s by (simp add: forest' nth_list_update)
  next
    show "forest h' \<noteq> []" using W(2) by (simp add: forest')
    show "length (forest h) < 2 ^ 64" by (rule W(3))
  next
    fix i r assume i: "i < length (forest h)" "r \<in> set (forest h' ! i)"
    show "\<exists>x s. x \<notin> X \<and> recs h' r = Some (FibTree x) \<and>
               view posInForest h' x = Some (Some r) \<and>
               view father h' x = Some None \<and> view sonsCnt h' x = Some s \<and>
               i = (if x \<in> D then unat s + 1 else unat s)"
    proof (cases "r \<in> set (forest h ! i)")
      case True
      from W(4)[OF i(1) True] obtain x s' where x: "x \<notin> X" "recs h r = Some (FibTree x)"
        "view posInForest h x = Some (Some r)" "view father h x = Some None"
        "view sonsCnt h x = Some s'" "i = (if x \<in> D then unat s' + 1 else unat s')" by blast
      have "r \<noteq> ?r" using fresh[OF i(1)] True by auto
      moreover have "x \<noteq> c" using x(3) c(2) by auto
      ultimately show ?thesis using x by (auto simp: recs' pos' fa' sc')
    next
      case False
      with i mem[OF i(1), of r] have "i = unat s" "r = ?r" by auto
      with c cX show ?thesis by (auto simp: recs' pos' fa' sc')
    qed
  next
    fix x r assume x: "x \<notin> X" "view posInForest h' x = Some (Some r)"
    have "(\<exists>i < length (forest h). r \<in> set (forest h' ! i)) \<and> recs h' r = Some (FibTree x)"
    proof (cases "x = c")
      case True
      with x(2) have "r = ?r" by (simp add: pos')
      with True s mem[OF s, of r] show ?thesis by (auto simp: recs')
    next
      case False
      with x(2) have p: "view posInForest h x = Some (Some r)" by (simp add: pos')
      from W(5)[OF x(1) p] obtain i where i: "i < length (forest h)" "r \<in> set (forest h ! i)"
        and rx: "recs h r = Some (FibTree x)" by blast
      have "r \<noteq> ?r" using fresh[OF i(1)] i(2) by auto
      with i rx mem[OF i(1), of r] show ?thesis by (auto simp: recs')
    qed
    then show "\<exists>i < length (forest h). r \<in> set (forest h' ! i)"
      "recs h' r = Some (FibTree x)" by blast+
  next
    fix x assume x: "x \<notin> Y - {c}" "x \<notin> X" "view father h' x = Some None"
      "view posInForest h' x = Some None"
    then have "x \<noteq> c" by (auto simp: pos')
    with x W(6)[of x] show "view firstSon h' x = Some None" by (simp add: pos' fa' fs')
  next
    fix x s' assume "view sonsCnt h' x = Some s'"
    then show "unat s' < length (forest h)" using W(7)[of x s'] by (simp add: sc')
  next
    fix i r assume i: "i < length (forest h)" "r \<in> set (forest h' ! i)"
    then show "r < nextRec h'" using mem[OF i(1), of r] W(8)[OF i(1), of r] by (auto simp: nr)
  next
    fix x assume x: "x \<in> X"
    then have "x \<noteq> c" using cX by auto
    with W(9)[OF x] show "\<exists>r. view posInForest h' x = Some (Some r)" by (simp add: pos')
  next
    fix x assume x: "x \<in> Y - {c}"
    then show "view father h' x = Some None" "view posInForest h' x = Some None"
      using W(10)[of x] by (simp_all add: pos' fa')
  qed
qed

text \<open>A son is cut: it has no record yet, and its father has one son less.\<close>

lemma wf_forest_cut:
  assumes wf: "wf_forest X Y D h"
    and d: "view father h d = Some (Some f)" "d \<notin> X"
    and s: "view sonsCnt h f = Some s" "s \<noteq> 0" "f \<notin> D"
    and fsn: "view firstSon h f \<noteq> Some None"
    and fa': "view father h' = (view father h)(d \<mapsto> None)"
    and sc': "view sonsCnt h' = (view sonsCnt h)(f \<mapsto> s - 1)"
    and fs': "\<And>x. x \<noteq> f \<Longrightarrow> view firstSon h' x = view firstSon h x"
    and pos': "view posInForest h' = view posInForest h"
    and forest': "forest h' = forest h" and recs': "recs h' = recs h"
    and nr: "nextRec h' = nextRec h"
  shows "wf_forest X (insert d Y) (insert f D) h'"
proof -
  note W = wf_forestD[OF wf]
  have "0 < unat s" using s(2) by (simp add: unat_gt_0)
  then have sm: "unat (s - 1) + 1 = unat s" using s(2) by (simp add: unat_minus_one)
  have dpos: "view posInForest h d = Some None" by (rule nonroot_pos[OF wf d(2,1)])
  show ?thesis unfolding wf_forest_def forest' recs' nr pos'
  proof (intro conjI allI impI ballI)
    fix i r assume i: "i < length (forest h)" "r \<in> set (forest h ! i)"
    from W(4)[OF i] obtain x s' where x: "x \<notin> X" "recs h r = Some (FibTree x)"
      "view posInForest h x = Some (Some r)" "view father h x = Some None"
      "view sonsCnt h x = Some s'" "i = (if x \<in> D then unat s' + 1 else unat s')" by blast
    have xd: "x \<noteq> d" using x(4) d(1) by auto
    show "\<exists>x s. x \<notin> X \<and> recs h r = Some (FibTree x) \<and>
               view posInForest h x = Some (Some r) \<and>
               view father h' x = Some None \<and> view sonsCnt h' x = Some s \<and>
               i = (if x \<in> insert f D then unat s + 1 else unat s)"
    proof (cases "x = f")
      case True
      with x s sm xd show ?thesis by (auto simp: fa' sc')
    next
      case False
      with x xd show ?thesis by (auto simp: fa' sc')
    qed
  next
    fix x assume x: "x \<notin> insert d Y" "x \<notin> X" "view father h' x = Some None"
      "view posInForest h x = Some None"
    then have "view father h x = Some None" by (auto simp: fa')
    with x W(6)[of x] have fsx: "view firstSon h x = Some None" by auto
    with fsn have "x \<noteq> f" by auto
    with fsx show "view firstSon h' x = Some None" by (simp add: fs')
  next
    fix x s' assume x: "view sonsCnt h' x = Some s'"
    show "unat s' < length (forest h)"
    proof (cases "x = f")
      case True
      with x have "s' = s - 1" by (simp add: sc')
      with W(7)[OF s(1)] sm show ?thesis by simp
    next
      case False
      with x W(7)[of x s'] show ?thesis by (simp add: sc')
    qed
  next
    fix x assume x: "x \<in> insert d Y"
    show "view father h' x = Some None" "view posInForest h x = Some None"
      using x W(10)[of x] dpos by (auto simp: fa')
  qed (use W in blast)+
qed

text \<open>A root that lost a son moves to the list one rank lower.\<close>

lemma wf_forest_moveDown:
  assumes wf: "wf_forest X Y D h"
    and f: "f \<in> D" "f \<notin> X" "view posInForest h f = Some (Some r)" "view sonsCnt h f = Some s"
    and forest': "forest h' = ((forest h)[unat s + 1 := remove1 r (forest h ! (unat s + 1))])
        [unat s := forest h ! unat s @ [r]]"
    and recs': "recs h' = recs h" and nr: "nextRec h' = nextRec h"
    and pos': "view posInForest h' = view posInForest h"
    and fa': "view father h' = view father h"
    and fs': "view firstSon h' = view firstSon h"
    and sc': "view sonsCnt h' = view sonsCnt h"
  shows "wf_forest X Y (D - {f}) h'"
proof -
  note W = wf_forestD[OF wf]
  from root_bucket[OF wf f(2,3)] f(1,4)
  have rf: "recs h r = Some (FibTree f)" and i1: "unat s + 1 < length (forest h)"
    and r1: "r \<in> set (forest h ! (unat s + 1))"
    and uniq: "\<And>j. j < length (forest h) \<Longrightarrow> r \<in> set (forest h ! j) \<Longrightarrow> j = unat s + 1"
    by auto
  have i0: "unat s < length (forest h)" using i1 by simp
  have len: "length (forest h') = length (forest h)" by (simp add: forest')
  have r0: "r \<notin> set (forest h ! unat s)" using uniq[OF i0] by auto
  have mem: "\<And>i r'. i < length (forest h) \<Longrightarrow>
      r' \<in> set (forest h' ! i) \<longleftrightarrow>
        (r' \<noteq> r \<and> r' \<in> set (forest h ! i)) \<or> (i = unat s \<and> r' = r)"
  proof -
    fix i r' assume i: "i < length (forest h)"
    show "r' \<in> set (forest h' ! i) \<longleftrightarrow>
        (r' \<noteq> r \<and> r' \<in> set (forest h ! i)) \<or> (i = unat s \<and> r' = r)"
      using i i0 i1 W(1)[OF i1] uniq[OF i] r0
      by (auto simp: forest' nth_list_update split: if_splits)
  qed
  show ?thesis unfolding wf_forest_def len recs' nr pos' fa' fs' sc'
  proof (intro conjI allI impI ballI)
    fix i assume i: "i < length (forest h)"
    show "distinct (forest h' ! i)"
      using W(1)[OF i] r0 i i0 i1 by (auto simp: forest' nth_list_update distinct_remove1)
  next
    show "forest h' \<noteq> []" using W(2) by (simp add: forest')
  next
    fix i r' assume i: "i < length (forest h)" "r' \<in> set (forest h' ! i)"
    show "\<exists>x s. x \<notin> X \<and> recs h r' = Some (FibTree x) \<and>
               view posInForest h x = Some (Some r') \<and>
               view father h x = Some None \<and> view sonsCnt h x = Some s \<and>
               i = (if x \<in> D - {f} then unat s + 1 else unat s)"
    proof (cases "r' = r")
      case True
      with i mem[OF i(1), of r'] have "i = unat s" by auto
      with True rf f root_bucket[OF wf f(2,3)] show ?thesis by auto
    next
      case False
      with i mem[OF i(1), of r'] have old: "r' \<in> set (forest h ! i)" by auto
      from W(4)[OF i(1) old] obtain x s' where x: "x \<notin> X" "recs h r' = Some (FibTree x)"
        "view posInForest h x = Some (Some r')" "view father h x = Some None"
        "view sonsCnt h x = Some s'" "i = (if x \<in> D then unat s' + 1 else unat s')" by blast
      have "x \<noteq> f" using x(3) f(3) False by auto
      with x show ?thesis by auto
    qed
  next
    fix x r' assume x: "x \<notin> X" "view posInForest h x = Some (Some r')"
    from W(5)[OF x] obtain i where i: "i < length (forest h)" "r' \<in> set (forest h ! i)"
      and rx: "recs h r' = Some (FibTree x)" by blast
    have "(\<exists>i < length (forest h). r' \<in> set (forest h' ! i)) \<and> recs h r' = Some (FibTree x)"
    proof (cases "r' = r")
      case True
      with mem[OF i0, of r'] i0 rx show ?thesis by auto
    next
      case False
      with mem[OF i(1), of r'] i rx show ?thesis by auto
    qed
    then show "\<exists>i < length (forest h). r' \<in> set (forest h' ! i)"
      "recs h r' = Some (FibTree x)" by blast+
  next
    fix i r' assume i: "i < length (forest h)" "r' \<in> set (forest h' ! i)"
    show "r' < nextRec h"
    proof (cases "r' = r")
      case True
      with W(8)[OF i1 r1] show ?thesis by simp
    next
      case False
      with i mem[OF i(1), of r'] W(8)[OF i(1), of r'] show ?thesis by auto
    qed
  qed (use W in blast)+
qed

lemma detachNode_unlink:
  "detachNode d h = do { (f, h5) \<leftarrow> unlinkNode d h; h7 \<leftarrow> fileNode d h5; Some (f, h7) }"
  unfolding detachNode_def unlinkNode_def fileNode_def
  by (simp add: split_def cong: Option.bind_cong)

lemma updNode_total: "nodes h a \<noteq> None \<Longrightarrow> \<exists>h'. updNode a g h = Some h'"
  by (auto simp: updNode_def)

lemma view_updNode_set:
  "updNode a g h = Some h' \<Longrightarrow> (\<And>n. F (g n) = v) \<Longrightarrow> view F h' = (view F h)(a \<mapsto> v)"
  by (auto simp: updNode_Some view_def fun_eq_iff)

lemma nodes_view: "nodes h a = Some n \<Longrightarrow> view F h a = Some (F n)"
  by (simp add: view_def)

lemma alloc_view: "view F h' = view F h \<Longrightarrow> nodes h' a = None \<longleftrightarrow> nodes h a = None"
  by (metis view_None)

lemma unlinkNode_effect:
  assumes d: "view father h d = Some (Some f)" "view nextBro h d = Some nxd"
      "view prevBro h d = Some pbd"
    and f: "view sonsCnt h f = Some s"
    and p: "\<And>p. pbd = Some p \<Longrightarrow> nodes h p \<noteq> None"
    and q: "\<And>q. nxd = Some q \<Longrightarrow> nodes h q \<noteq> None"
  shows "\<exists>h5. unlinkNode d h = Some (f, h5) \<and>
     view father h5 = (view father h)(d \<mapsto> None) \<and>
     view nextBro h5 =
        (case pbd of None \<Rightarrow> view nextBro h | Some p \<Rightarrow> (view nextBro h)(p \<mapsto> nxd))(d \<mapsto> None) \<and>
     view prevBro h5 =
        (case nxd of None \<Rightarrow> view prevBro h | Some q \<Rightarrow> (view prevBro h)(q \<mapsto> pbd))(d \<mapsto> None) \<and>
     view firstSon h5 =
        (if view firstSon h f = Some (Some d) then (view firstSon h)(f \<mapsto> nxd)
         else view firstSon h) \<and>
     view sonsCnt h5 = (view sonsCnt h)(f \<mapsto> s - 1) \<and>
     view posInForest h5 = view posInForest h \<and> view key h5 = view key h \<and>
     view grief h5 = view grief h \<and> view elem h5 = view elem h \<and>
     forest h5 = forest h \<and> recs h5 = recs h \<and> nextRec h5 = nextRec h \<and>
     nextNode h5 = nextNode h \<and> heap_min h5 = heap_min h \<and> nodesCount h5 = nodesCount h"
proof -
  from d obtain dn where dn: "nodes h d = Some dn" "father dn = Some f" "nextBro dn = nxd"
    "prevBro dn = pbd" by (auto simp: view_Some)
  from f obtain fn where fn: "nodes h f = Some fn" "sonsCnt fn = s" by (auto simp: view_Some)
  have "nodes h f \<noteq> None" using fn by simp
  from updNode_total[OF this]
  have "\<exists>h1. (if firstSon fn = Some d
             then updNode f (\<lambda>n. n\<lparr>firstSon := nextBro dn\<rparr>) h else Some h) = Some h1"
    by simp
  then obtain h1 where h1: "(if firstSon fn = Some d
             then updNode f (\<lambda>n. n\<lparr>firstSon := nextBro dn\<rparr>) h else Some h) = Some h1" ..
  have fr1: "forest h1 = forest h" "recs h1 = recs h" "nextRec h1 = nextRec h"
    "nextNode h1 = nextNode h" "heap_min h1 = heap_min h" "nodesCount h1 = nodesCount h"
    using h1 by (auto simp: updNode_frame split: if_splits)
  have same1: "\<And>F. (\<And>n v. F (n\<lparr>firstSon := v\<rparr>) = F n) \<Longrightarrow> view F h1 = view F h"
    using h1 by (auto simp: view_updNode_same split: if_splits)
  have fs1: "view firstSon h1 =
        (if view firstSon h f = Some (Some d) then (view firstSon h)(f \<mapsto> nxd)
         else view firstSon h)"
    using h1 fn dn by (auto simp: view_updNode_set[where v = nxd] nodes_view split: if_splits)
  have al1: "\<And>a. nodes h1 a = None \<longleftrightarrow> nodes h a = None"
    by (rule alloc_view[OF same1[of father]]) simp
  have "view nextBro h1 d = Some nxd" "view prevBro h1 d = Some pbd"
    using same1[of nextBro] same1[of prevBro] d by simp_all
  then obtain dn1 where
    dn1: "nodes h1 d = Some dn1" "nextBro dn1 = nxd" "prevBro dn1 = pbd"
    by (auto simp: view_Some)
  have "\<exists>h2. (case prevBro dn1 of None \<Rightarrow> Some h1
             | Some p \<Rightarrow> updNode p (\<lambda>n. n\<lparr>nextBro := nextBro dn1\<rparr>) h1) = Some h2"
  proof (cases pbd)
    case None
    with dn1 show ?thesis by simp
  next
    case (Some p')
    from p[OF Some] have "nodes h1 p' \<noteq> None" by (simp add: al1)
    from updNode_total[OF this] dn1 Some show ?thesis by simp
  qed
  then obtain h2 where h2: "(case prevBro dn1 of None \<Rightarrow> Some h1
             | Some p \<Rightarrow> updNode p (\<lambda>n. n\<lparr>nextBro := nextBro dn1\<rparr>) h1) = Some h2" ..
  have fr2: "forest h2 = forest h" "recs h2 = recs h" "nextRec h2 = nextRec h"
    "nextNode h2 = nextNode h" "heap_min h2 = heap_min h" "nodesCount h2 = nodesCount h"
    using h2 fr1 by (auto simp: updNode_frame split: option.splits)
  have same2: "\<And>F. (\<And>n v. F (n\<lparr>nextBro := v\<rparr>) = F n) \<Longrightarrow> view F h2 = view F h1"
    using h2 by (auto simp: view_updNode_same split: option.splits)
  have nb2: "view nextBro h2 =
      (case pbd of None \<Rightarrow> view nextBro h | Some p \<Rightarrow> (view nextBro h)(p \<mapsto> nxd))"
    using h2 dn1 same1[of nextBro]
    by (auto simp: view_updNode_set[where v = nxd] split: option.splits)
  have al2: "\<And>a. nodes h2 a = None \<longleftrightarrow> nodes h a = None"
    using alloc_view[OF same2[of father]] al1 by simp
  have "view nextBro h2 d = Some nxd" using d(2) by (auto simp: nb2 split: option.splits)
  moreover have "view prevBro h2 d = Some pbd" using same2[of prevBro] same1[of prevBro] d(3)
    by simp
  ultimately obtain dn2 where
    dn2: "nodes h2 d = Some dn2" "nextBro dn2 = nxd" "prevBro dn2 = pbd"
    by (auto simp: view_Some)
  have "\<exists>h3. (case nextBro dn2 of None \<Rightarrow> Some h2
             | Some q \<Rightarrow> updNode q (\<lambda>n. n\<lparr>prevBro := prevBro dn2\<rparr>) h2) = Some h3"
  proof (cases nxd)
    case None
    with dn2 show ?thesis by simp
  next
    case (Some q')
    from q[OF Some] have "nodes h2 q' \<noteq> None" by (simp add: al2)
    from updNode_total[OF this] dn2 Some show ?thesis by simp
  qed
  then obtain h3 where h3: "(case nextBro dn2 of None \<Rightarrow> Some h2
             | Some q \<Rightarrow> updNode q (\<lambda>n. n\<lparr>prevBro := prevBro dn2\<rparr>) h2) = Some h3" ..
  have fr3: "forest h3 = forest h" "recs h3 = recs h" "nextRec h3 = nextRec h"
    "nextNode h3 = nextNode h" "heap_min h3 = heap_min h" "nodesCount h3 = nodesCount h"
    using h3 fr2 by (auto simp: updNode_frame split: option.splits)
  have same3: "\<And>F. (\<And>n v. F (n\<lparr>prevBro := v\<rparr>) = F n) \<Longrightarrow> view F h3 = view F h2"
    using h3 by (auto simp: view_updNode_same split: option.splits)
  have pb3: "view prevBro h3 =
      (case nxd of None \<Rightarrow> view prevBro h | Some q \<Rightarrow> (view prevBro h)(q \<mapsto> pbd))"
    using h3 dn2 same2[of prevBro] same1[of prevBro]
    by (auto simp: view_updNode_set[where v = pbd] split: option.splits)
  have al3: "\<And>a. nodes h3 a = None \<longleftrightarrow> nodes h a = None"
    using alloc_view[OF same3[of father]] al2 by simp
  have "nodes h3 d \<noteq> None" using al3 dn(1) by simp
  from updNode_total[OF this]
  obtain h4 where h4: "updNode d (\<lambda>n. n\<lparr>father := None, nextBro := None, prevBro := None\<rparr>) h3
      = Some h4" by blast
  have fr4: "forest h4 = forest h" "recs h4 = recs h" "nextRec h4 = nextRec h"
    "nextNode h4 = nextNode h" "heap_min h4 = heap_min h" "nodesCount h4 = nodesCount h"
    using fr3 by (simp_all add: updNode_frame[OF h4])
  have same4: "\<And>F. (\<And>n u v w. F (n\<lparr>father := u, nextBro := v, prevBro := w\<rparr>) = F n)
      \<Longrightarrow> view F h4 = view F h3"
    by (rule view_updNode_same[OF h4]) simp
  have fa4: "view father h4 = (view father h)(d \<mapsto> None)"
    using view_updNode_set[OF h4, of father None] same3[of father] same2[of father]
      same1[of father] by simp
  have nb4: "view nextBro h4 = (view nextBro h2)(d \<mapsto> None)"
    using view_updNode_set[OF h4, of nextBro None] same3[of nextBro] by simp
  have pb4: "view prevBro h4 = (view prevBro h3)(d \<mapsto> None)"
    using view_updNode_set[OF h4, of prevBro None] by simp
  have sc4: "view sonsCnt h4 = view sonsCnt h"
    using same4[of sonsCnt] same3[of sonsCnt] same2[of sonsCnt] same1[of sonsCnt] by simp
  then have "view sonsCnt h4 f = Some s" using f by simp
  then obtain fn4 where fn4: "nodes h4 f = Some fn4" "sonsCnt fn4 = s"
    by (auto simp: view_Some)
  have "nodes h4 f \<noteq> None" using fn4 by simp
  from updNode_total[OF this]
  obtain h5 where h5: "updNode f (\<lambda>n. n\<lparr>sonsCnt := sonsCnt n - 1\<rparr>) h4 = Some h5" by blast
  have fr5: "forest h5 = forest h" "recs h5 = recs h" "nextRec h5 = nextRec h"
    "nextNode h5 = nextNode h" "heap_min h5 = heap_min h" "nodesCount h5 = nodesCount h"
    using fr4 by (simp_all add: updNode_frame[OF h5])
  have same5: "\<And>F. (\<And>n v. F (n\<lparr>sonsCnt := v\<rparr>) = F n) \<Longrightarrow> view F h5 = view F h4"
    by (rule view_updNode_same[OF h5]) simp
  have sc5: "view sonsCnt h5 = (view sonsCnt h)(f \<mapsto> s - 1)"
    using view_updNode_at[OF h5 fn4(1), of sonsCnt] fn4(2) sc4
    by simp
  have run: "unlinkNode d h = Some (f, h5)"
    unfolding unlinkNode_def using dn fn h1 dn1 h2 dn2 h3 h4 h5 by simp
  have "view father h5 = (view father h)(d \<mapsto> None)" using same5[of father] fa4 by simp
  moreover have "view nextBro h5 =
        (case pbd of None \<Rightarrow> view nextBro h | Some p \<Rightarrow> (view nextBro h)(p \<mapsto> nxd))(d \<mapsto> None)"
    using same5[of nextBro] nb4 nb2 by simp
  moreover have "view prevBro h5 =
        (case nxd of None \<Rightarrow> view prevBro h | Some q \<Rightarrow> (view prevBro h)(q \<mapsto> pbd))(d \<mapsto> None)"
    using same5[of prevBro] pb4 pb3 by simp
  moreover have "view firstSon h5 =
        (if view firstSon h f = Some (Some d) then (view firstSon h)(f \<mapsto> nxd)
         else view firstSon h)"
    using same5[of firstSon] same4[of firstSon] same3[of firstSon] same2[of firstSon] fs1
    by simp
  moreover have "view posInForest h5 = view posInForest h"
    using same5[of posInForest] same4[of posInForest] same3[of posInForest]
      same2[of posInForest] same1[of posInForest] by simp
  moreover have "view key h5 = view key h"
    using same5[of key] same4[of key] same3[of key] same2[of key] same1[of key] by simp
  moreover have "view grief h5 = view grief h"
    using same5[of grief] same4[of grief] same3[of grief] same2[of grief] same1[of grief]
    by simp
  moreover have "view elem h5 = view elem h"
    using same5[of elem] same4[of elem] same3[of elem] same2[of elem] same1[of elem] by simp
  ultimately show ?thesis using run sc5 fr5 by blast
qed

lemma fileNode_effect:
  assumes c: "view sonsCnt h c = Some s" and s: "unat s < length (forest h)"
  shows "\<exists>h'. fileNode c h = Some h' \<and>
     forest h' = (forest h)[unat s := forest h ! unat s @ [nextRec h]] \<and>
     recs h' = (recs h)(nextRec h \<mapsto> FibTree c) \<and> nextRec h' = Suc (nextRec h) \<and>
     view posInForest h' = (view posInForest h)(c \<mapsto> Some (nextRec h)) \<and>
     view grief h' = (view grief h)(c \<mapsto> 0) \<and>
     view father h' = view father h \<and> view firstSon h' = view firstSon h \<and>
     view nextBro h' = view nextBro h \<and> view prevBro h' = view prevBro h \<and>
     view sonsCnt h' = view sonsCnt h \<and> view key h' = view key h \<and>
     view elem h' = view elem h \<and>
     nextNode h' = nextNode h \<and> heap_min h' = heap_min h \<and> nodesCount h' = nodesCount h"
proof -
  from c obtain cn where cn: "nodes h c = Some cn" "sonsCnt cn = s" by (auto simp: view_Some)
  define h1 where "h1 = h\<lparr>recs := (recs h)(nextRec h \<mapsto> FibTree c), nextRec := Suc (nextRec h),
      forest := (forest h)[unat s := forest h ! unat s @ [nextRec h]]\<rparr>"
  have a: "addAsLast (FibTree c) (unat s) h = Some (nextRec h, h1)"
    using s by (simp add: addAsLast_def addAsLastRecord_def bucket_def Let_def h1_def)
  have n1: "nodes h1 = nodes h" by (simp add: h1_def)
  then have "nodes h1 c \<noteq> None" using cn by simp
  from updNode_total[OF this]
  obtain h' where h': "updNode c (\<lambda>n. n\<lparr>posInForest := Some (nextRec h), grief := 0\<rparr>) h1 = Some h'"
    by blast
  have same: "\<And>F. (\<And>n u v. F (n\<lparr>posInForest := u, grief := v\<rparr>) = F n) \<Longrightarrow> view F h' = view F h"
  proof -
    fix F :: "FibTreeNode \<Rightarrow> 'x"
    assume "\<And>n u v. F (n\<lparr>posInForest := u, grief := v\<rparr>) = F n"
    then have "view F h' = view F h1" by (intro view_updNode_same[OF h']) simp
    then show "view F h' = view F h" using view_eq_nodes[OF n1, of F] by simp
  qed
  have run: "fileNode c h = Some h'" unfolding fileNode_def using cn a h' by simp
  have "view posInForest h' = (view posInForest h)(c \<mapsto> Some (nextRec h))"
    using view_updNode_set[OF h', of posInForest "Some (nextRec h)"]
      view_eq_nodes[OF n1, of posInForest] by simp
  moreover have "view grief h' = (view grief h)(c \<mapsto> 0)"
    using view_updNode_set[OF h', of grief 0] view_eq_nodes[OF n1, of grief] by simp
  moreover have "forest h' = (forest h)[unat s := forest h ! unat s @ [nextRec h]]"
    "recs h' = (recs h)(nextRec h \<mapsto> FibTree c)" "nextRec h' = Suc (nextRec h)"
    "nextNode h' = nextNode h" "heap_min h' = heap_min h" "nodesCount h' = nodesCount h"
    by (simp_all add: updNode_frame[OF h'] h1_def)
  ultimately show ?thesis
    using run same[of father] same[of firstSon] same[of nextBro] same[of prevBro]
      same[of sonsCnt] same[of key] same[of elem] by simp
qed

lemma moveDown_effect:
  assumes f: "view posInForest h f = Some (Some r)" "view sonsCnt h f = Some s"
    and s: "unat s + 1 < length (forest h)" "length (forest h) < 2 ^ 64"
    and r: "r \<in> set (forest h ! (unat s + 1))"
  shows "\<exists>h'. moveDown f h = Some h' \<and>
     forest h' = ((forest h)[unat s + 1 := remove1 r (forest h ! (unat s + 1))])
        [unat s := forest h ! unat s @ [r]] \<and>
     nodes h' = nodes h \<and> recs h' = recs h \<and> nextRec h' = nextRec h \<and>
     nextNode h' = nextNode h \<and> heap_min h' = heap_min h \<and> nodesCount h' = nodesCount h"
proof -
  from f obtain fn where fn: "nodes h f = Some fn" "posInForest fn = Some r" "sonsCnt fn = s"
    by (auto simp: view_Some)
  have "unat s + 1 < 2 ^ 64" using s by simp
  then have u: "unat (s + 1) = unat s + 1" by (simp add: unat_word_ariths)
  show ?thesis
    unfolding moveDown_def
    using fn s r u
    by (simp add: popRecord_def addAsLastRecord_def bucket_def nth_list_update)
qed

lemma father_allocated:
  assumes T: "wf_tree X Y h K" and d: "view father h d = Some (Some f)"
  shows "nodes h f \<noteq> None" "d \<in> set (K f)" "d \<noteq> f" "f \<notin> X" "d \<notin> X"
proof -
  note D = wf_treeD[OF T]
  show dK: "d \<in> set (K f)" using D(1) d by simp
  show "nodes h f \<noteq> None"
  proof
    assume "nodes h f = None"
    from D(5)[OF this] dK show False by simp
  qed
  show "d \<noteq> f"
  proof
    assume "d = f"
    with d have "(f, f) \<in> edges h" by (simp add: edges_def)
    with D(7) show False by (auto simp: acyclic_def)
  qed
  show "f \<notin> X" using D(8)[of f] dK by auto
  show "d \<notin> X" using D(8)[of d] d by auto
qed

lemma son_allocated:
  assumes T: "wf_tree X Y h K" and c: "c \<in> set (K p)"
  shows "nodes h c \<noteq> None"
  using wf_treeD(1)[OF T, of c p] c by (auto simp: view_Some)

lemma detachNode_wf:
  assumes T: "wf_tree {} {} h K" and W: "wf_forest {} {} {} h"
    and d: "view father h d = Some (Some f)"
  shows "\<exists>h7 s sd. detachNode d h = Some (f, h7) \<and>
     wf_tree {} {} h7 (K(f := remove1 d (K f))) \<and> wf_forest {} {} {f} h7 \<and>
     view sonsCnt h f = Some s \<and> s \<noteq> 0 \<and> view sonsCnt h d = Some sd \<and>
     view father h7 = (view father h)(d \<mapsto> None) \<and>
     view sonsCnt h7 = (view sonsCnt h)(f \<mapsto> s - 1) \<and>
     view posInForest h7 = (view posInForest h)(d \<mapsto> Some (nextRec h)) \<and>
     view grief h7 = (view grief h)(d \<mapsto> 0) \<and>
     view key h7 = view key h \<and> view elem h7 = view elem h \<and>
     forest h7 = (forest h)[unat sd := forest h ! unat sd @ [nextRec h]] \<and>
     unat sd < length (forest h) \<and>
     recs h7 = (recs h)(nextRec h \<mapsto> FibTree d) \<and>
     nextNode h7 = nextNode h \<and> heap_min h7 = heap_min h \<and> nodesCount h7 = nodesCount h"
proof -
  note D = wf_treeD[OF T] and F = wf_forestD[OF W]
  note fa = father_allocated[OF T d]
  from d obtain nxd pbd sd where dv: "view nextBro h d = Some nxd" "view prevBro h d = Some pbd"
    "view sonsCnt h d = Some sd" by (auto simp: view_def)
  from fa(1) obtain s y0 where fv: "view sonsCnt h f = Some s" "view firstSon h f = Some y0"
    by (auto simp: view_def)
  have ch: "chain (view nextBro h) (view prevBro h) None y0 (K f)"
    using D(3)[of f y0] fv by simp
  have ls: "unat s = length (K f)" using D(4)[of f s] fv by simp
  have "0 < length (K f)" using fa(2) by (cases "K f") auto
  with ls have s0: "s \<noteq> 0" by (auto simp: unat_gt_0[symmetric])
  have y0: "y0 \<noteq> None"
  proof
    assume "y0 = None"
    with ch have "K f = []" by (simp add: chain_None)
    with fa(2) show False by simp
  qed
  have pal: "\<And>p. pbd = Some p \<Longrightarrow> nodes h p \<noteq> None"
  proof -
    fix p assume p: "pbd = Some p"
    have "y0 \<noteq> Some d"
    proof
      assume "y0 = Some d"
      with ch obtain ks where "K f = d # ks" by (auto dest: chain_Some)
      with ch dv(2) p show False by simp
    qed
    from chain_prev_mem[OF ch fa(2) this] dv(2) p have "p \<in> set (K f)" by simp
    then show "nodes h p \<noteq> None" by (rule son_allocated[OF T])
  qed
  have qal: "\<And>q. nxd = Some q \<Longrightarrow> nodes h q \<noteq> None"
  proof -
    fix q assume q: "nxd = Some q"
    from chain_next_mem[OF ch fa(2)] dv(1) q have "q \<in> set (K f)" by simp
    then show "nodes h q \<noteq> None" by (rule son_allocated[OF T])
  qed
  from unlinkNode_effect[OF d dv(1,2) fv(1) pal qal]
  obtain h5 where h5: "unlinkNode d h = Some (f, h5)"
    and v5: "view father h5 = (view father h)(d \<mapsto> None)"
     "view nextBro h5 =
        (case pbd of None \<Rightarrow> view nextBro h | Some p \<Rightarrow> (view nextBro h)(p \<mapsto> nxd))(d \<mapsto> None)"
     "view prevBro h5 =
        (case nxd of None \<Rightarrow> view prevBro h | Some q \<Rightarrow> (view prevBro h)(q \<mapsto> pbd))(d \<mapsto> None)"
     "view firstSon h5 =
        (if view firstSon h f = Some (Some d) then (view firstSon h)(f \<mapsto> nxd)
         else view firstSon h)"
     "view sonsCnt h5 = (view sonsCnt h)(f \<mapsto> s - 1)"
     "view posInForest h5 = view posInForest h" "view key h5 = view key h"
     "view grief h5 = view grief h" "view elem h5 = view elem h"
    and fr5: "forest h5 = forest h" "recs h5 = recs h" "nextRec h5 = nextRec h"
     "nextNode h5 = nextNode h" "heap_min h5 = heap_min h" "nodesCount h5 = nodesCount h"
    by blast
  have T5: "wf_tree {} {} h5 (K(f := remove1 d (K f)))"
    by (rule wf_tree_cut[OF T d dv(1,2) fv(1) v5(1,2,3,4,5) fr5(4)])
  have W5: "wf_forest {} {d} {f} h5"
  proof (rule wf_forest_cut[OF W d _ fv(1) s0 _ _ v5(1) v5(5) _ v5(6) fr5(1,2,3)])
    show "view firstSon h f \<noteq> Some None" using fv(2) y0 by simp
    show "\<And>x. x \<noteq> f \<Longrightarrow> view firstSon h5 x = view firstSon h x" by (simp add: v5(4))
  qed simp_all
  have sd5: "view sonsCnt h5 d = Some sd" using dv(3) fa(3) by (simp add: v5(5))
  have sdl: "unat sd < length (forest h5)" using F(7)[OF dv(3)] by (simp add: fr5)
  from fileNode_effect[OF sd5 sdl] obtain h7 where h7: "fileNode d h5 = Some h7"
    and v7: "forest h7 = (forest h5)[unat sd := forest h5 ! unat sd @ [nextRec h5]]"
     "recs h7 = (recs h5)(nextRec h5 \<mapsto> FibTree d)" "nextRec h7 = Suc (nextRec h5)"
     "view posInForest h7 = (view posInForest h5)(d \<mapsto> Some (nextRec h5))"
     "view grief h7 = (view grief h5)(d \<mapsto> 0)"
     "view father h7 = view father h5" "view firstSon h7 = view firstSon h5"
     "view nextBro h7 = view nextBro h5" "view prevBro h7 = view prevBro h5"
     "view sonsCnt h7 = view sonsCnt h5" "view key h7 = view key h5"
     "view elem h7 = view elem h5"
     "nextNode h7 = nextNode h5" "heap_min h7 = heap_min h5" "nodesCount h7 = nodesCount h5"
    by blast
  have T7: "wf_tree {} {} h7 (K(f := remove1 d (K f)))"
    by (rule wf_tree_cong[OF T5 v7(6,7,8,9,10,13)])
  have "wf_forest {} ({d} - {d}) {f} h7"
  proof (rule wf_forest_add[OF W5 _ _ sd5 _ v7(1,2,3,4,6,7,10)])
    show "view father h5 d = Some None" by (simp add: v5(1))
    show "view posInForest h5 d = Some None"
      using nonroot_pos[OF W _ d] by (simp add: v5(6))
    show "d \<notin> {f}" using fa(3) by simp
  qed
  then have W7: "wf_forest {} {} {f} h7" by simp
  have run: "detachNode d h = Some (f, h7)"
    by (simp add: detachNode_unlink h5 h7)
  show ?thesis
    using run T7 W7 fv(1) s0 dv(3) F(7)[OF dv(3)]
    by (simp add: v7 v5 fr5)
qed

lemma cut_result_trans:
  assumes "cut_result h h1 {d}" "cut_result h1 h' C"
  shows "cut_result h h' (insert d C)"
proof -
  have f1: "view father h1 = (\<lambda>x. if x = d then Some None else view father h x)"
    using assms(1) by (simp add: cut_result_def)
  have "view father h' = (\<lambda>x. if x \<in> insert d C then Some None else view father h x)"
    using assms(2) by (auto simp: cut_result_def f1 fun_eq_iff)
  moreover have "\<forall>x. x \<notin> insert d C \<longrightarrow> view posInForest h' x = view posInForest h x"
    using assms by (simp add: cut_result_def)
  moreover have "\<forall>x \<in> insert d C. (\<exists>p. view father h x = Some (Some p)) \<and>
                (\<exists>r. view posInForest h' x = Some (Some r))"
  proof
    fix x assume x: "x \<in> insert d C"
    show "(\<exists>p. view father h x = Some (Some p)) \<and> (\<exists>r. view posInForest h' x = Some (Some r))"
    proof (cases "x \<in> C")
      case True
      with assms(2) have "(\<exists>p. view father h1 x = Some (Some p))"
        "(\<exists>r. view posInForest h' x = Some (Some r))" by (auto simp: cut_result_def)
      then show ?thesis by (auto simp: f1 split: if_splits)
    next
      case False
      with x have xd: "x = d" by simp
      from assms(1) have "(\<exists>p. view father h d = Some (Some p))"
        "(\<exists>r. view posInForest h1 d = Some (Some r))" by (auto simp: cut_result_def)
      moreover have "view posInForest h' d = view posInForest h1 d"
        using assms(2) False xd by (simp add: cut_result_def)
      ultimately show ?thesis using xd by simp
    qed
  qed
  ultimately show ?thesis using assms unfolding cut_result_def by simp
qed

lemma wf_forest_cong:
  assumes "wf_forest X Y D h"
    and "view father h' = view father h" "view firstSon h' = view firstSon h"
      "view sonsCnt h' = view sonsCnt h" "view posInForest h' = view posInForest h"
      "forest h' = forest h" "recs h' = recs h" "nextRec h' = nextRec h"
  shows "wf_forest X Y D h'"
  using assms unfolding wf_forest_def by simp

lemma edges_finite:
  assumes "wf_tree X Y h K"
  shows "finite (edges h)"
proof -
  have "edges h \<subseteq> {..<nextNode h} \<times> {..<nextNode h}"
  proof
    fix e assume "e \<in> edges h"
    then obtain c p where e: "e = (c, p)" "view father h c = Some (Some p)"
      by (auto simp: edges_def)
    from father_allocated(1)[OF assms e(2)] have "p < nextNode h"
      by (rule wf_treeD(9)[OF assms])
    moreover have "nodes h c \<noteq> None" using e(2) by (auto simp: view_Some)
    then have "c < nextNode h" by (rule wf_treeD(9)[OF assms])
    ultimately show "e \<in> {..<nextNode h} \<times> {..<nextNode h}" using e(1) by simp
  qed
  then show ?thesis by (rule finite_subset) simp
qed

lemma cascadedDetach_wf_aux:
  assumes "wf (E\<inverse>)"
  shows "wf_tree {} {} h K \<Longrightarrow> wf_forest {} {} {} h \<Longrightarrow> edges h \<subseteq> E \<Longrightarrow>
     view father h d = Some (Some f) \<Longrightarrow>
     \<exists>h' K' C. cascadedDetach h d = Some h' \<and> wf_tree {} {} h' K' \<and> wf_forest {} {} {} h' \<and>
       cut_result h h' C \<and> d \<in> C"
  using assms
proof (induction d arbitrary: h K f rule: wf_induct_rule)
  case (less d)
  note T = less.prems(1) and W = less.prems(2) and d = less.prems(4)
  note fa = father_allocated[OF T d]
  from detachNode_wf[OF T W d] obtain h7 s sd where
    run: "detachNode d h = Some (f, h7)"
    and T7: "wf_tree {} {} h7 (K(f := remove1 d (K f)))" and W7: "wf_forest {} {} {f} h7"
    and s: "view sonsCnt h f = Some s" "s \<noteq> 0"
    and v7: "view father h7 = (view father h)(d \<mapsto> None)"
      "view sonsCnt h7 = (view sonsCnt h)(f \<mapsto> s - 1)"
      "view posInForest h7 = (view posInForest h)(d \<mapsto> Some (nextRec h))"
      "view key h7 = view key h" "view elem h7 = view elem h"
    and fr7: "nextNode h7 = nextNode h" "heap_min h7 = heap_min h" "nodesCount h7 = nodesCount h"
    by blast
  have c7: "cut_result h h7 {d}"
    unfolding cut_result_def using v7 fr7 d by (auto simp: fun_eq_iff)
  from fa(1) obtain ff where ff: "view father h f = Some ff" by (auto simp: view_def)
  then have ff7: "view father h7 f = Some ff" using fa(3) by (simp add: v7)
  then obtain fn7 where fn7: "nodes h7 f = Some fn7" "father fn7 = ff"
    by (auto simp: view_Some)
  have e7: "edges h7 \<subseteq> edges h" unfolding edges_def v7 by (auto split: if_splits)
  show ?case
  proof (cases ff)
    case None
    have "view firstSon h f \<noteq> Some None"
    proof
      assume a: "view firstSon h f = Some None"
      from wf_treeD(3)[OF T _ a] have "K f = []" by (simp add: chain_None)
      with fa(2) show False by simp
    qed
    with wf_forestD(6)[OF W, of f] ff None have "view posInForest h f \<noteq> Some None" by auto
    moreover from ff obtain pv where "view posInForest h f = Some pv" by (auto simp: view_def)
    ultimately obtain r where r: "view posInForest h f = Some (Some r)" by (cases pv) auto
    then have r7: "view posInForest h7 f = Some (Some r)" using fa(3) by (simp add: v7)
    have s7: "view sonsCnt h7 f = Some (s - 1)" by (simp add: v7)
    from root_bucket[OF W7 _ r7] s7
    have b: "unat (s - 1) + 1 < length (forest h7)" "r \<in> set (forest h7 ! (unat (s - 1) + 1))"
      by auto
    from moveDown_effect[OF r7 s7 b(1) wf_forestD(3)[OF W7] b(2)]
    obtain h' where h': "moveDown f h7 = Some h'"
      and m: "forest h' = ((forest h7)[unat (s - 1) + 1 :=
                  remove1 r (forest h7 ! (unat (s - 1) + 1))])
                [unat (s - 1) := forest h7 ! unat (s - 1) @ [r]]"
        "nodes h' = nodes h7" "recs h' = recs h7" "nextRec h' = nextRec h7"
        "nextNode h' = nextNode h7" "heap_min h' = heap_min h7" "nodesCount h' = nodesCount h7"
      by blast
    note ve = view_eq_nodes[OF m(2)]
    have T': "wf_tree {} {} h' (K(f := remove1 d (K f)))"
      by (rule wf_tree_cong[OF T7 ve ve ve ve ve m(5)])
    have "wf_forest {} {} ({f} - {f}) h'"
      by (rule wf_forest_moveDown[OF W7 _ _ r7 s7 m(1) m(3) m(4) ve ve ve ve]) simp_all
    then have W': "wf_forest {} {} {} h'" by simp
    have "cut_result h7 h' {}" by (simp add: cut_result_def ve m)
    from cut_result_trans[OF c7 this] have c: "cut_result h h' {d}" by simp
    have "cascadedDetach h d = Some h'"
      by (subst cascadedDetach.simps) (simp add: run fn7 None h')
    with T' W' c show ?thesis by blast
  next
    case (Some g)
    have W7': "wf_forest {} {} {} h7"
      using wf_forest_nonroot[OF W7, of f g] ff7 Some by simp
    show ?thesis
    proof (cases "grief fn7 = 1")
      case True
      have "(f, d) \<in> E\<inverse>" using d less.prems(3) by (auto simp: edges_def)
      moreover have "edges h7 \<subseteq> E" using e7 less.prems(3) by blast
      moreover have "view father h7 f = Some (Some g)" using ff7 Some by simp
      ultimately obtain h' K' C where r: "cascadedDetach h7 f = Some h'"
        "wf_tree {} {} h' K'" "wf_forest {} {} {} h'" "cut_result h7 h' C"
        using less.IH[OF _ T7 W7'] by blast
      have "cascadedDetach h d = Some h'"
        by (subst cascadedDetach.simps) (simp add: run fn7 Some True r(1))
      with r cut_result_trans[OF c7 r(4)] show ?thesis by blast
    next
      case False
      have "nodes h7 f \<noteq> None" using fn7 by simp
      from updNode_total[OF this] obtain h' where
        h': "updNode f (\<lambda>n. n\<lparr>grief := 1\<rparr>) h7 = Some h'" by blast
      have same: "\<And>F. (\<And>n v. F (n\<lparr>grief := v\<rparr>) = F n) \<Longrightarrow> view F h' = view F h7"
        by (rule view_updNode_same[OF h']) simp
      note fr = updNode_frame[OF h']
      have T': "wf_tree {} {} h' (K(f := remove1 d (K f)))"
        by (rule wf_tree_cong[OF T7 same same same same same fr(5)]) simp_all
      have W': "wf_forest {} {} {} h'"
        by (rule wf_forest_cong[OF W7' same same same same fr(1) fr(4) fr(6)]) simp_all
      have "cut_result h7 h' {}"
        by (simp add: cut_result_def same[of father] same[of posInForest] same[of key]
            same[of elem] fr)
      from cut_result_trans[OF c7 this] have c: "cut_result h h' {d}" by simp
      have "cascadedDetach h d = Some h'"
        by (subst cascadedDetach.simps) (simp add: run fn7 Some False h')
      with T' W' c show ?thesis by blast
    qed
  qed
qed

lemma cascadedDetach_wf:
  assumes T: "wf_tree {} {} h K" and W: "wf_forest {} {} {} h"
    and d: "view father h d = Some (Some f)"
  shows "\<exists>h' K' C. cascadedDetach h d = Some h' \<and> wf_tree {} {} h' K' \<and>
       wf_forest {} {} {} h' \<and> cut_result h h' C \<and> d \<in> C"
proof -
  have "wf ((edges h)\<inverse>)"
    by (rule finite_acyclic_wf_converse[OF edges_finite[OF T] wf_treeD(7)[OF T]])
  from cascadedDetach_wf_aux[OF this T W subset_refl d] show ?thesis .
qed

lemma inheap_view:
  "inheap h x \<longleftrightarrow> (\<exists>p. view father h x = Some (Some p)) \<or>
     (\<exists>r. view posInForest h x = Some (Some r))"
  by (auto simp: inheap_def view_Some)

lemma cut_result_inheap:
  assumes "cut_result h h' C"
  shows "inheap h' x \<longleftrightarrow> inheap h x"
proof (cases "x \<in> C")
  case True
  with assms show ?thesis unfolding inheap_view cut_result_def by blast
next
  case False
  with assms have "view father h' x = view father h x"
    "view posInForest h' x = view posInForest h x" by (auto simp: cut_result_def)
  then show ?thesis by (simp add: inheap_view)
qed

lemma set_concat_nth: "r \<in> set (concat xs) \<longleftrightarrow> (\<exists>i < length xs. r \<in> set (xs ! i))"
proof
  assume "r \<in> set (concat xs)"
  then obtain l where l: "l \<in> set xs" "r \<in> set l" by auto
  from l(1) obtain i where "i < length xs" "xs ! i = l" by (auto simp: in_set_conv_nth)
  with l(2) show "\<exists>i < length xs. r \<in> set (xs ! i)" by auto
next
  assume "\<exists>i < length xs. r \<in> set (xs ! i)"
  then obtain i where "i < length xs" "r \<in> set (xs ! i)" by auto
  then show "r \<in> set (concat xs)" using nth_mem[of i xs] by auto
qed

lemma is_root_pos:
  assumes W: "wf_forest X Y D h" and r: "is_root h x"
  shows "\<exists>r. view posInForest h x = Some (Some r)" "view father h x = Some None"
proof -
  from r obtain r0 where r0: "r0 \<in> set (concat (forest h))" "recs h r0 = Some (FibTree x)"
    unfolding is_root_def by blast
  from r0(1) obtain i0 where "i0 < length (forest h)" "r0 \<in> set (forest h ! i0)"
    unfolding set_concat_nth by blast
  with r0(2) have "\<exists>r i. i < length (forest h) \<and> r \<in> set (forest h ! i) \<and>
      recs h r = Some (FibTree x)" by blast
  then obtain r i where i: "i < length (forest h)" "r \<in> set (forest h ! i)"
    and rx: "recs h r = Some (FibTree x)" by blast
  from wf_forestD(4)[OF W i] rx
  show "\<exists>r. view posInForest h x = Some (Some r)" "view father h x = Some None" by auto
qed

text \<open>Every node that can be reached from the lists of roots has a father or is a root.\<close>

lemma live_inheap:
  assumes T: "wf_tree {} {} h K" and W: "wf_forest {} {} {} h" and l: "live h x"
  shows "inheap h x"
  using l
proof (induction rule: live.induct)
  case (live_root x)
  with is_root_pos[OF W] show ?case by (auto simp: inheap_view)
next
  case (live_son p pn c)
  have "chain (view nextBro h) (view prevBro h) None (Some c) (K p)"
    using wf_treeD(3)[OF T, of p "Some c"] live_son by (simp add: nodes_view)
  then have "c \<in> set (K p)" by (auto dest: chain_Some)
  then show ?case using wf_treeD(1)[OF T, of c p] by (auto simp: inheap_view)
next
  case (live_bro c cn d)
  have nb: "view nextBro h c = Some (Some d)" using live_bro by (simp add: nodes_view)
  from live_bro.IH obtain p where p: "view father h c = Some (Some p)"
  proof (cases "view father h c")
    case None
    with live_bro show ?thesis by (simp add: view_None)
  next
    case (Some v)
    show ?thesis
    proof (cases v)
      case None
      with Some wf_treeD(6)[OF T, of c] nb show ?thesis by simp
    next
      case (Some p)
      with \<open>view father h c = Some v\<close> that show ?thesis by simp
    qed
  qed
  then have cK: "c \<in> set (K p)" using wf_treeD(1)[OF T] by simp
  have pa: "nodes h p \<noteq> None" by (rule father_allocated(1)[OF T p])
  then obtain y where y: "view firstSon h p = Some y" by (auto simp: view_def)
  from wf_treeD(3)[OF T _ y] have "chain (view nextBro h) (view prevBro h) None y (K p)" by simp
  from chain_next_mem[OF this cK nb] have "d \<in> set (K p)" .
  then show ?case using wf_treeD(1)[OF T, of d p] by (auto simp: inheap_view)
qed

lemma updateMin_fast:
  assumes n: "nodes h n = Some nn" and m: "\<And>m. heap_min h = Some m \<Longrightarrow> nodes h m \<noteq> None"
  shows "\<exists>h'. updateMin h (Some n) = Some h' \<and> nodes h' = nodes h \<and> forest h' = forest h \<and>
     recs h' = recs h \<and> nextRec h' = nextRec h \<and> nextNode h' = nextNode h \<and>
     nodesCount h' = nodesCount h \<and>
     (heap_min h' = None \<or> heap_min h' = Some n \<or> heap_min h' = heap_min h) \<and>
     (isHeapEmpty (Some h) = 0 \<longrightarrow>
        heap_min h' = (case heap_min h of None \<Rightarrow> Some n
           | Some m \<Rightarrow> if key nn < key (the (nodes h m)) then Some n else Some m))"
proof (cases "heap_min h")
  case None
  then show ?thesis by (simp add: updateMin_def)
next
  case (Some m')
  from m[OF this] obtain mn where "nodes h m' = Some mn" by auto
  with Some n show ?thesis by (simp add: updateMin_def)
qed

lemma cut_result_refl: "cut_result h h {}"
  by (simp add: cut_result_def)

lemma min_root_cut:
  assumes "min_root h" "cut_result h h' C"
  shows "min_root h'"
  unfolding min_root_def
proof (intro allI impI)
  fix m assume "heap_min h' = Some m"
  with assms(2) have "heap_min h = Some m" by (simp add: cut_result_def)
  with assms(1) obtain r where r: "view posInForest h m = Some (Some r)"
    by (auto simp: min_root_def)
  show "\<exists>r. view posInForest h' m = Some (Some r)"
  proof (cases "m \<in> C")
    case True
    with assms(2) show ?thesis by (auto simp: cut_result_def)
  next
    case False
    with assms(2) r show ?thesis by (auto simp: cut_result_def)
  qed
qed

lemma counted_cong:
  assumes "counted Y h" "\<And>x. inheap h' x \<longleftrightarrow> inheap h x" "nodesCount h' = nodesCount h"
  shows "counted Y h'"
  using assms by (simp add: counted_def)

lemma root_nonempty:
  assumes W: "wf_forest X Y D h" and x: "x \<notin> X" "view posInForest h x = Some (Some r)"
  shows "isHeapEmpty (Some h) = 0"
proof -
  from wf_forestD(5)[OF W x] obtain i where i: "i < length (forest h)" "r \<in> set (forest h ! i)"
    by blast
  then have "forest h ! i \<in> set (forest h)" "forest h ! i \<noteq> []" by auto
  then show ?thesis unfolding isHeapEmpty_0 by blast
qed

lemma fhDecreaseKey_wf:
  assumes wf: "well_formed h" and n: "nodes h n = Some nn"
  shows "\<exists>h' C. fhDecreaseKey (Some h) (Some n) dec = Some (Some n, Some h') \<and>
      view key h' = (view key h)(n \<mapsto> key nn - dec) \<and> view elem h' = view elem h \<and>
      view father h' = (\<lambda>x. if x \<in> C then Some None else view father h x) \<and>
      (\<forall>x \<in> C. \<exists>p. view father h x = Some (Some p)) \<and>
      (\<forall>x. inheap h' x \<longleftrightarrow> inheap h x) \<and>
      (n \<in> C \<longleftrightarrow> (\<exists>f fn. father nn = Some f \<and> nodes h f = Some fn \<and> key nn - dec < key fn)) \<and>
      nodesCount h' = nodesCount h \<and> nextNode h' = nextNode h \<and>
      (view father h' n \<noteq> Some None \<longrightarrow> heap_min h' = heap_min h) \<and>
      (inheap h n \<longrightarrow> well_formed h' \<and>
         (view father h' n = Some None \<longrightarrow>
            (heap_min h' = Some n \<and>
               (heap_min h = None \<or>
                (\<exists>m mk. heap_min h = Some m \<and> view key h' m = Some mk \<and> key nn - dec < mk))) \<or>
            (heap_min h' = heap_min h \<and>
               (\<exists>m mk. heap_min h = Some m \<and> view key h' m = Some mk \<and> mk \<le> key nn - dec))))"
proof -
  from wf obtain K where T: "wf_tree {} {} h K" and W: "wf_forest {} {} {} h"
    and M: "min_root h" and N: "counted {} h" by (auto simp: well_formed_def)
  let ?k = "key nn - dec"
  have "nodes h n \<noteq> None" using n by simp
  from updNode_total[OF this] obtain h1 where
    h1: "updNode n (\<lambda>x. x\<lparr>key := key x - dec\<rparr>) h = Some h1" by blast
  note fr1 = updNode_frame[OF h1]
  have same1: "\<And>F. (\<And>x v. F (x\<lparr>key := v\<rparr>) = F x) \<Longrightarrow> view F h1 = view F h"
    by (rule view_updNode_same[OF h1]) simp
  have s1: "view father h1 = view father h" "view posInForest h1 = view posInForest h"
    "view elem h1 = view elem h"
    by (rule same1, simp)+
  have k1: "view key h1 = (view key h)(n \<mapsto> ?k)"
    using view_updNode_at[OF h1 n, of key] by simp
  have T1: "wf_tree {} {} h1 K"
    by (rule wf_tree_cong[OF T same1 same1 same1 same1 same1 fr1(5)]) simp_all
  have W1: "wf_forest {} {} {} h1"
    by (rule wf_forest_cong[OF W same1 same1 same1 same1 fr1(1) fr1(4) fr1(6)]) simp_all
  have M1: "min_root h1" using M by (simp add: min_root_def fr1 s1)
  have in1: "\<And>x. inheap h1 x \<longleftrightarrow> inheap h x"
    by (simp add: inheap_view s1)
  have "view father h1 n = Some (father nn)" using n by (simp add: s1 nodes_view)
  moreover have "view key h1 n = Some ?k" by (simp add: k1)
  ultimately obtain n1 where n1: "nodes h1 n = Some n1" "father n1 = father nn" "key n1 = ?k"
    by (auto simp: view_Some)
  let ?cut = "\<exists>f fn. father nn = Some f \<and> nodes h f = Some fn \<and> ?k < key fn"
  have "\<exists>h2 K2 C. (case father n1 of None \<Rightarrow> Some h1
      | Some f \<Rightarrow> nodes h1 f \<bind> (\<lambda>fn. if key n1 < key fn then cascadedDetach h1 n else Some h1))
        = Some h2 \<and> wf_tree {} {} h2 K2 \<and> wf_forest {} {} {} h2 \<and> cut_result h1 h2 C \<and>
      (n \<in> C \<longleftrightarrow> ?cut)"
  proof (cases "father nn")
    case None
    with n1 T1 W1 cut_result_refl[of h1] show ?thesis by auto
  next
    case (Some f)
    then have d1: "view father h1 n = Some (Some f)" using n1 by (simp add: nodes_view)
    note fa = father_allocated[OF T1 d1]
    from fa(1) obtain fn1 where fn1: "nodes h1 f = Some fn1" by auto
    have "view key h1 f = view key h f" using fa(3) by (simp add: k1)
    then have "view key h f = Some (key fn1)" using fn1 by (simp add: nodes_view)
    then obtain fn where fn: "nodes h f = Some fn" "key fn = key fn1"
      by (auto simp: view_Some)
    show ?thesis
    proof (cases "?k < key fn1")
      case True
      from cascadedDetach_wf[OF T1 W1 d1] obtain h2 K2 C where
        "cascadedDetach h1 n = Some h2" "wf_tree {} {} h2 K2" "wf_forest {} {} {} h2"
        "cut_result h1 h2 C" "n \<in> C" by blast
      moreover have ?cut using Some fn True by auto
      ultimately show ?thesis using n1 Some fn1 True by auto
    next
      case False
      then have "\<not> ?cut" using Some fn by auto
      with n1 Some fn1 False T1 W1 cut_result_refl[of h1] show ?thesis by auto
    qed
  qed
  then obtain h2 K2 C where h2: "(case father n1 of None \<Rightarrow> Some h1
      | Some f \<Rightarrow> nodes h1 f \<bind> (\<lambda>fn. if key n1 < key fn then cascadedDetach h1 n else Some h1))
        = Some h2"
    and T2: "wf_tree {} {} h2 K2" and W2: "wf_forest {} {} {} h2"
    and c: "cut_result h1 h2 C" and nC: "n \<in> C \<longleftrightarrow> ?cut" by blast
  have M2: "min_root h2" by (rule min_root_cut[OF M1 c])
  have in2: "\<And>x. inheap h2 x \<longleftrightarrow> inheap h x" using cut_result_inheap[OF c] in1 by simp
  have c': "view father h2 = (\<lambda>x. if x \<in> C then Some None else view father h x)"
    "\<forall>x \<in> C. \<exists>p. view father h x = Some (Some p)"
    "view key h2 = (view key h)(n \<mapsto> ?k)" "view elem h2 = view elem h"
    "heap_min h2 = heap_min h" "nodesCount h2 = nodesCount h" "nextNode h2 = nextNode h"
    using c by (simp_all add: cut_result_def s1 k1 fr1 cong: if_cong)
  have "view key h2 n = Some ?k" by (simp add: c')
  then obtain n2 where n2: "nodes h2 n = Some n2" "key n2 = ?k" by (auto simp: view_Some)
  have fn2: "view father h2 n = Some (father n2)" using n2 by (simp add: nodes_view)
  have mal: "\<And>m. heap_min h2 = Some m \<Longrightarrow> nodes h2 m \<noteq> None"
    using M2 by (auto simp: min_root_def view_Some)
  from updateMin_fast[OF n2(1) mal] obtain hm where
    hm: "updateMin h2 (Some n) = Some hm" "nodes hm = nodes h2" "forest hm = forest h2"
     "recs hm = recs h2" "nextRec hm = nextRec h2" "nextNode hm = nextNode h2"
     "nodesCount hm = nodesCount h2"
     "heap_min hm = None \<or> heap_min hm = Some n \<or> heap_min hm = heap_min h2"
     "isHeapEmpty (Some h2) = 0 \<longrightarrow>
        heap_min hm = (case heap_min h2 of None \<Rightarrow> Some n
           | Some m \<Rightarrow> if key n2 < key (the (nodes h2 m)) then Some n else Some m)"
    by blast
  define h3 where "h3 = (if father n2 = None then hm else h2)"
  have run3: "(if father n2 = None then updateMin h2 (Some n) else Some h2) = Some h3"
    by (simp add: h3_def hm)
  have run: "fhDecreaseKey (Some h) (Some n) dec = Some (Some n, Some h3)"
    unfolding fhDecreaseKey_def using h1 n1 h2 n2 run3 by simp
  have n3: "nodes h3 = nodes h2" by (simp add: h3_def hm)
  note v3 = view_eq_nodes[OF n3]
  have fr3: "forest h3 = forest h2" "recs h3 = recs h2" "nextRec h3 = nextRec h2"
    "nextNode h3 = nextNode h2" "nodesCount h3 = nodesCount h2"
    by (simp_all add: h3_def hm)
  have in3: "\<And>x. inheap h3 x \<longleftrightarrow> inheap h x" using in2 by (simp add: inheap_def n3)
  have "view father h3 n = Some (father n2)" using fn2 by (simp add: v3)
  then have min3: "view father h3 n \<noteq> Some None \<longrightarrow> heap_min h3 = heap_min h"
    by (auto simp: h3_def c'(5))
  have T3: "wf_tree {} {} h3 K2" by (rule wf_tree_cong[OF T2 v3 v3 v3 v3 v3 fr3(4)])
  have W3: "wf_forest {} {} {} h3"
    by (rule wf_forest_cong[OF W2 v3 v3 v3 v3 fr3(1,2,3)])
  have N3: "counted {} h3" by (rule counted_cong[OF N in3]) (simp add: fr3 c')
  have live_part: "well_formed h3 \<and>
         (view father h3 n = Some None \<longrightarrow>
            (heap_min h3 = Some n \<and>
               (heap_min h = None \<or>
                (\<exists>m mk. heap_min h = Some m \<and> view key h3 m = Some mk \<and> ?k < mk))) \<or>
            (heap_min h3 = heap_min h \<and>
               (\<exists>m mk. heap_min h = Some m \<and> view key h3 m = Some mk \<and> mk \<le> ?k)))"
    if inh: "inheap h n"
  proof (cases "father n2")
    case None
    have "inheap h2 n" using in2 inh by simp
    with fn2 None obtain r where r: "view posInForest h2 n = Some (Some r)"
      by (auto simp: inheap_view)
    have ne: "isHeapEmpty (Some h2) = 0" by (rule root_nonempty[OF W2 _ r]) simp
    have h3m: "h3 = hm" using None by (simp add: h3_def)
    have hmin: "heap_min h3 = (case heap_min h of None \<Rightarrow> Some n
           | Some m \<Rightarrow> if ?k < key (the (nodes h2 m)) then Some n else Some m)"
      using hm(9) ne by (auto simp: h3m c' n2 split: option.splits)
    have "min_root h3"
      unfolding min_root_def
    proof (intro allI impI)
      fix m assume m: "heap_min h3 = Some m"
      show "\<exists>r. view posInForest h3 m = Some (Some r)"
      proof (cases "m = n")
        case True
        with r show ?thesis by (simp add: v3)
      next
        case False
        with m hmin have "heap_min h2 = Some m" by (auto simp: c' split: option.splits if_splits)
        with M2 show ?thesis by (simp add: min_root_def v3)
      qed
    qed
    with T3 W3 N3 have wf3: "well_formed h3" by (auto simp: well_formed_def)
    have "(heap_min h3 = Some n \<and>
               (heap_min h = None \<or>
                (\<exists>m mk. heap_min h = Some m \<and> view key h3 m = Some mk \<and> ?k < mk))) \<or>
            (heap_min h3 = heap_min h \<and>
               (\<exists>m mk. heap_min h = Some m \<and> view key h3 m = Some mk \<and> mk \<le> ?k))"
    proof (cases "heap_min h")
      case None
      with hmin show ?thesis by simp
    next
      case (Some m)
      with mal[of m] obtain mn where mn: "nodes h2 m = Some mn" by (auto simp: c')
      then have vk: "view key h3 m = Some (key mn)" by (simp add: v3 nodes_view)
      show ?thesis
      proof (cases "?k < key mn")
        case True
        with hmin Some mn vk show ?thesis by simp
      next
        case False
        then have "key mn \<le> ?k" by simp
        with False hmin Some mn vk show ?thesis by simp
      qed
    qed
    with wf3 show ?thesis by simp
  next
    case (Some f)
    then have "h3 = h2" by (simp add: h3_def)
    moreover have "well_formed h2" using T2 W2 M2 N3 \<open>h3 = h2\<close> by (auto simp: well_formed_def)
    moreover have "view father h2 n \<noteq> Some None" using fn2 Some by simp
    ultimately show ?thesis by simp
  qed
  show ?thesis
    using run c' nC in3 min3 live_part by (simp add: v3 fr3) blast
qed

section \<open>Decreasing a key wraps around (C8)\<close>

lemma father_and_son_tree:
  "wf_tree {} {} father_and_son ((\<lambda>_. [])(0 := [1]))"
proof -
  have "acyclic (edges father_and_son)"
    by (rule acyclicI_order[where f = "\<lambda>x. x"])
      (auto simp: edges_def view_def father_and_son_def split: if_splits)
  then show ?thesis
    unfolding wf_tree_def
    by (auto simp: view_def father_and_son_def split: if_splits)
qed

lemma father_and_son_forest: "wf_forest {} {} {} father_and_son"
  unfolding wf_forest_def
  by (auto simp: view_def father_and_son_def nth_Cons' less_Suc_eq split: if_splits)

lemma father_and_son_well_formed: "well_formed father_and_son"
proof -
  have "{x. inheap father_and_son x} \<subseteq> {0, 1}"
    by (auto simp: inheap_def father_and_son_def split: if_splits)
  then have "card {x. inheap father_and_son x} \<le> card {0, 1 :: nat}"
    by (intro card_mono) auto
  then have "counted {} father_and_son"
    by (simp add: counted_def father_and_son_def)
  moreover have "min_root father_and_son"
    by (simp add: min_root_def view_def father_and_son_def)
  ultimately show ?thesis
    unfolding well_formed_def using father_and_son_tree father_and_son_forest by blast
qed

lemma father_and_son_live: "live father_and_son 1"
proof -
  have "is_root father_and_son 0" by (simp add: is_root_def father_and_son_def)
  then have "live father_and_son 0" by (rule live_root)
  moreover obtain pn where "nodes father_and_son 0 = Some pn" "firstSon pn = Some 1"
    by (simp add: father_and_son_def)
  ultimately show ?thesis by (rule live_son)
qed

text \<open>
  C8. Underflow contract of decrease-key: on every well-formed heap, for every live node and
  every amount, \<^verbatim>\<open>fhDecreaseKey\<close> returns, returns the node it was given, and sets its key
  to (old key - amount) modulo \<open>2 ^ 64\<close>; there is no underflow rejection, and the heap is
  well formed afterwards. The witness is the son with key 3 of a root with key 1, decreased
  by 5: its key becomes \<open>2 ^ 64 - 2\<close>.
\<close>

theorem decrease_key_wraps:
  assumes "well_formed h" and "live h n" and "nodes h n = Some nn"
  shows "\<exists>h' nn'. fhDecreaseKey (Some h) (Some n) dec = Some (Some n, Some h') \<and>
     nodes h' n = Some nn' \<and> key nn' = key nn - dec \<and>
     uint (key nn') = (uint (key nn) - uint dec) mod 2 ^ 64 \<and> well_formed h'"
proof -
  from assms(1) obtain K where "wf_tree {} {} h K" "wf_forest {} {} {} h"
    by (auto simp: well_formed_def)
  then have inh: "inheap h n" using assms(2) by (rule live_inheap)
  from fhDecreaseKey_wf[OF assms(1,3), of dec] inh obtain h' where
    r: "fhDecreaseKey (Some h) (Some n) dec = Some (Some n, Some h')"
    and v: "view key h' = (view key h)(n \<mapsto> key nn - dec)" and w: "well_formed h'"
    by blast
  from v have "view key h' n = Some (key nn - dec)" by simp
  then obtain nn' where "nodes h' n = Some nn'" "key nn' = key nn - dec"
    by (auto simp: view_Some)
  moreover have "uint (key nn - dec) = (uint (key nn) - uint dec) mod 2 ^ 64"
    by (simp add: uint_word_ariths)
  ultimately show ?thesis using r w by simp
qed

theorem decrease_key_wraps_witness:
  "well_formed father_and_son \<and> live father_and_son 1 \<and>
   map_option key (nodes father_and_son 1) = Some 3 \<and>
   map_option father (nodes father_and_son 1) = Some (Some 0) \<and>
   (\<exists>h' nn'. fhDecreaseKey (Some father_and_son) (Some 1) 5 = Some (Some 1, Some h') \<and>
      nodes h' 1 = Some nn' \<and> key nn' = 18446744073709551614 \<and>
      uint (key nn') = 2 ^ 64 - 2 \<and> well_formed h')"
proof -
  obtain nn where nn: "nodes father_and_son 1 = Some nn" "key nn = 3" "father nn = Some 0"
    by (simp add: father_and_son_def)
  from decrease_key_wraps[OF father_and_son_well_formed father_and_son_live nn(1), of 5]
  show ?thesis
    using father_and_son_well_formed father_and_son_live nn by auto
qed

section \<open>The cascading cut, step by step (C7)\<close>









end
